theory Spec2Isabelle
  imports Complex_Main "HOL-Library.Word" "HOL-Library.Multiset"
begin

unbundle bit_operations_syntax

section \<open>The tile downloader\<close>

text \<open>
  The repository holds its downloader in three versions: the oldest, sequential script
  (\<^verbatim>\<open>downloadTiles\<close>, \<^verbatim>\<open>retryFailedTiles\<close>), the first script of \<^verbatim>\<open>index.js\<close>
  (\<^verbatim>\<open>downloadTilesParallel\<close>) and the second script of \<^verbatim>\<open>index.js\<close>
  (\<^verbatim>\<open>downloadTilesForZoom\<close>, \<^verbatim>\<open>processFailedTiles\<close>, \<^verbatim>\<open>main\<close>). This theory follows the
  second script, the current one, function by function; the ledger records of the two
  older scripts are modelled beside it.

  The network, the disk and the order in which concurrent tasks settle are parameters of
  the model (\<open>env\<close>), and so is the arithmetic of the numbers in the bounds test
  (\<open>number_ops\<close>); every statement holds for all of them. Paths are POSIX paths.

  The run is given twice. The sections up to \<open>Reading a run\<close> give the functions of the
  script with every call of \<^verbatim>\<open>logToFile\<close> and every call of \<^verbatim>\<open>fs\<close> on the ledger
  returning. The section \<open>Runs in which a write fails\<close> gives the same functions with
  these calls in place, each of which may throw. The two agree when no such call throws
  (\<open>main_io_quiet\<close> and the lemmas before it).
\<close>

section \<open>JavaScript values used by the tile downloader\<close>

text \<open>
  The scripts compute with JavaScript numbers. Every number that reaches the functions
  modelled here is either an integer (a loop counter, a result of \<^verbatim>\<open>parseInt\<close>) or
  \<^verbatim>\<open>NaN\<close> (a failed \<^verbatim>\<open>parseInt\<close>), so a number is \<open>Num i\<close> or \<open>NaN\<close>.
  Integers are exact in a double below \<open>2 ^ 53\<close> and print in decimal below \<open>10 ^ 21\<close>;
  the model neither rounds nor switches to exponent notation above.
\<close>

datatype jsnum = NaN | Num int

definition digit_char :: "nat \<Rightarrow> char" where
  "digit_char d = ''0123456789'' ! d"

fun digits10 :: "nat \<Rightarrow> string" where
  "digits10 n = (if n < 10 then [digit_char n] else digits10 (n div 10) @ [digit_char (n mod 10)])"

declare digits10.simps [simp del]

text \<open>\<^verbatim>\<open>`${v}`\<close> and \<^verbatim>\<open>v.toString()\<close> of a number.\<close>

definition js_show :: "jsnum \<Rightarrow> string" where
  "js_show v = (case v of
       NaN \<Rightarrow> ''NaN''
     | Num i \<Rightarrow> (if i < 0 then CHR ''-'' # digits10 (nat (- i)) else digits10 (nat i)))"

text \<open>
  The operands of \<^verbatim>\<open>&\<close> and \<^verbatim>\<open><<\<close> are converted to 32-bit integers:
  \<^verbatim>\<open>NaN\<close> becomes 0 and an integer is taken modulo \<open>2 ^ 32\<close>.
\<close>

definition ToInt32 :: "jsnum \<Rightarrow> 32 word" where
  "ToInt32 v = (case v of NaN \<Rightarrow> 0 | Num i \<Rightarrow> word_of_int i)"

section \<open>Quad keys\<close>

text \<open>
  \<^verbatim>\<open>
  function quadKey(x, y, z) {
    let key = '';
    for (let i = z; i > 0; i--) {
      let digit = 0;
      const mask = 1 << (i - 1);
      if ((x & mask) !== 0) digit += 1;
      if ((y & mask) !== 0) digit += 2;
      key += digit;
    }
    return key;
  }
  \<close>
  The loop counter \<open>i\<close> of the source is \<open>Suc i\<close> here, so \<open>i - 1\<close> is \<open>i\<close>. The shift
  count of \<^verbatim>\<open><<\<close> is taken modulo 32, as JavaScript does.
\<close>

definition quadKey_digit :: "jsnum \<Rightarrow> jsnum \<Rightarrow> nat \<Rightarrow> int" where
  "quadKey_digit x y i =
     (let mask = push_bit (i mod 32) (1 :: 32 word)
      in (if ToInt32 x AND mask \<noteq> 0 then 1 else 0) + (if ToInt32 y AND mask \<noteq> 0 then 2 else 0))"

fun quadKey_loop :: "jsnum \<Rightarrow> jsnum \<Rightarrow> nat \<Rightarrow> string \<Rightarrow> string" where
  "quadKey_loop x y 0 key = key"
| "quadKey_loop x y (Suc i) key = quadKey_loop x y i (key @ js_show (Num (quadKey_digit x y i)))"

definition quadKey :: "jsnum \<Rightarrow> jsnum \<Rightarrow> jsnum \<Rightarrow> string" where
  "quadKey x y z = (case z of NaN \<Rightarrow> [] | Num k \<Rightarrow> quadKey_loop x y (nat k) [])"

text \<open>
  The quad key as the specification words it: one base-4 digit per level, from bit
  position \<open>z - 1\<close> down to bit 0, the digit being \<open>bit x + 2 * bit y\<close>.
\<close>

definition bit_at :: "nat \<Rightarrow> nat \<Rightarrow> nat" where
  "bit_at i n = (n div 2 ^ i) mod 2"

definition quadKey_spec :: "nat \<Rightarrow> nat \<Rightarrow> nat \<Rightarrow> string" where
  "quadKey_spec x y z = map (\<lambda>i. digit_char (bit_at i x + 2 * bit_at i y)) (rev [0..<z])"

section \<open>Coordinate math\<close>

text \<open>
  Bounding boxes hold floating-point degrees, and \<^verbatim>\<open>isTileInBounds\<close> computes with
  doubles. What \<^verbatim>\<open>Math.pow\<close>, \<^verbatim>\<open>Math.sinh\<close> and \<^verbatim>\<open>Math.atan\<close> return is left to the
  engine by the language, so the numbers and their operations are parameters of the
  model: \<open>'d\<close> is the type of the numbers and a \<open>'d number_ops\<close> holds the number of an
  integer, the constant \<^verbatim>\<open>Math.PI\<close>, the three functions, the operators \<^verbatim>\<open>*\<close>, \<^verbatim>\<open>/\<close>
  and \<^verbatim>\<open>-\<close>, and the comparison \<open>IsLessThan a b\<close> behind the relational operators, which
  is undefined (\<open>None\<close>) when an operand is \<^verbatim>\<open>NaN\<close>. Every statement about
  \<^verbatim>\<open>isTileInBounds\<close> and about the runs that call it holds for each such arithmetic, the
  one of the IEEE doubles among them.
\<close>

record 'd number_ops =
  fnum :: "int \<Rightarrow> 'd"
  Math_PI :: 'd
  Math_pow :: "'d \<Rightarrow> 'd \<Rightarrow> 'd"
  Math_sinh :: "'d \<Rightarrow> 'd"
  Math_atan :: "'d \<Rightarrow> 'd"
  fmul :: "'d \<Rightarrow> 'd \<Rightarrow> 'd"
  fdiv :: "'d \<Rightarrow> 'd \<Rightarrow> 'd"
  fsub :: "'d \<Rightarrow> 'd \<Rightarrow> 'd"
  IsLessThan :: "'d \<Rightarrow> 'd \<Rightarrow> bool option"

text \<open>
  \<^verbatim>\<open>a >= b\<close> is false when \<open>IsLessThan a b\<close> is true or undefined, and true otherwise;
  \<^verbatim>\<open>a <= b\<close> is false when \<open>IsLessThan b a\<close> is true or undefined, and true otherwise.
\<close>

definition ge :: "'d number_ops \<Rightarrow> 'd \<Rightarrow> 'd \<Rightarrow> bool" where
  "ge M a b = (IsLessThan M a b = Some False)"

definition le :: "'d number_ops \<Rightarrow> 'd \<Rightarrow> 'd \<Rightarrow> bool" where
  "le M a b = (IsLessThan M b a = Some False)"

text \<open>
  \<^verbatim>\<open>
  function isTileInBounds(x, y, z, bounds) {
    if (!bounds) return true;
    const n = Math.pow(2, z);
    const lon_deg = x / n * 360.0 - 180.0;
    const lat_rad = Math.atan(Math.sinh(Math.PI * (1 - 2 * y / n)));
    const lat_deg = lat_rad * 180.0 / Math.PI;
    return lat_deg >= bounds.south && lat_deg <= bounds.north
        && lon_deg >= bounds.west && lon_deg <= bounds.east;
  }
  \<close>
  The callers pass loop counters for \<^verbatim>\<open>x\<close>, \<^verbatim>\<open>y\<close> and \<^verbatim>\<open>z\<close>. A side of the box that is
  missing or not a number compares as \<^verbatim>\<open>NaN\<close> does.
\<close>

record 'd BoundingBox =
  north :: 'd
  south :: 'd
  east :: 'd
  west :: 'd

definition isTileInBounds ::
  "'d number_ops \<Rightarrow> nat \<Rightarrow> nat \<Rightarrow> nat \<Rightarrow> 'd BoundingBox option \<Rightarrow> bool" where
  "isTileInBounds M x y z bounds =
     (case bounds of
        None \<Rightarrow> True
      | Some b \<Rightarrow>
          (let n = Math_pow M (fnum M 2) (fnum M (int z));
               lon_deg = fsub M (fmul M (fdiv M (fnum M (int x)) n) (fnum M 360)) (fnum M 180);
               lat_rad = Math_atan M (Math_sinh M
                           (fmul M (Math_PI M)
                              (fsub M (fnum M 1) (fdiv M (fmul M (fnum M 2) (fnum M (int y))) n))));
               lat_deg = fdiv M (fmul M lat_rad (fnum M 180)) (Math_PI M)
           in ge M lat_deg (south b) \<and> le M lat_deg (north b)
              \<and> ge M lon_deg (west b) \<and> le M lon_deg (east b)))"

text \<open>
  The inverse projection as the specification words it, returning \<open>(lat, lon)\<close>:
  \<open>lon = x / 2 ^ zoom * 360 - 180\<close> and
  \<open>lat = atan (sinh (\<pi> (1 - 2 y / 2 ^ zoom))) \<cdot> 180 / \<pi>\<close>, and what it is for a number to
  lie in a closed interval.
\<close>

definition tileToGeo :: "'d number_ops \<Rightarrow> nat \<Rightarrow> nat \<Rightarrow> nat \<Rightarrow> 'd \<times> 'd" where
  "tileToGeo M x y zoom =
     (fdiv M (fmul M (Math_atan M (Math_sinh M
          (fmul M (Math_PI M)
             (fsub M (fnum M 1)
                (fdiv M (fmul M (fnum M 2) (fnum M (int y)))
                   (Math_pow M (fnum M 2) (fnum M (int zoom))))))))
        (fnum M 180)) (Math_PI M),
      fsub M (fmul M (fdiv M (fnum M (int x)) (Math_pow M (fnum M 2) (fnum M (int zoom))))
                (fnum M 360))
        (fnum M 180))"

definition inside :: "'d number_ops \<Rightarrow> 'd \<Rightarrow> 'd \<Rightarrow> 'd \<Rightarrow> bool" where
  "inside M lo hi v = (le M lo v \<and> le M v hi)"

text \<open>
  The arithmetic of the real numbers, which the doubles approximate: every operation is
  exact and no number is \<^verbatim>\<open>NaN\<close>.
\<close>

definition exact :: "real number_ops" where
  "exact =
     \<lparr>fnum = real_of_int, Math_PI = pi, Math_pow = (\<lambda>a b. a powr b), Math_sinh = sinh,
      Math_atan = arctan, fmul = (\<lambda>a b. a * b), fdiv = (\<lambda>a b. a / b), fsub = (\<lambda>a b. a - b),
      IsLessThan = (\<lambda>a b. Some (a < b))\<rparr>"

section \<open>Providers\<close>

text \<open>
  The second script of \<^verbatim>\<open>index.js\<close> (the one with \<^verbatim>\<open>downloadTilesForZoom\<close> and
  \<^verbatim>\<open>processFailedTiles\<close>) is the current downloader; its provider classes are the
  same as those of the first script. A provider object is its class and its
  \<^verbatim>\<open>langParam\<close>; \<^verbatim>\<open>lang\<close> is \<open>None\<close> for \<^verbatim>\<open>null\<close>, and the empty string is falsy too.
\<close>

datatype provider =
    GoogleTileProvider string
  | YandexTileProvider string
  | OpenStreetMapTileProvider
  | BingTileProvider

text \<open>
  The errors that reach \<^verbatim>\<open>main\<close>: the one \<^verbatim>\<open>TileProviderFactory.create\<close> throws, and
  those of \<^verbatim>\<open>fs.appendFileSync\<close> on a log file and of the \<^verbatim>\<open>fs\<close> calls on the ledger.
\<close>

datatype error = UnsupportedProvider string | LogFileError | LedgerFileError

definition langParam :: "string \<Rightarrow> string option \<Rightarrow> string" where
  "langParam prefix lang =
     (case lang of None \<Rightarrow> [] | Some l \<Rightarrow> (if l = [] then [] else prefix @ l))"

definition TileProviderFactory_create :: "string \<Rightarrow> string option \<Rightarrow> error + provider" where
  "TileProviderFactory_create providerName lang =
     (if providerName = ''google'' then Inr (GoogleTileProvider (langParam ''&hl='' lang))
      else if providerName = ''yandex'' then Inr (YandexTileProvider (langParam ''&lang='' lang))
      else if providerName = ''osm'' then Inr OpenStreetMapTileProvider
      else if providerName = ''bing'' then Inr BingTileProvider
      else Inl (UnsupportedProvider providerName))"

fun name :: "provider \<Rightarrow> string" where
  "name (GoogleTileProvider _) = ''google''"
| "name (YandexTileProvider _) = ''yandex''"
| "name OpenStreetMapTileProvider = ''osm''"
| "name BingTileProvider = ''bing''"

text \<open>\<^verbatim>\<open>a + b\<close> and \<^verbatim>\<open>a % b\<close> on numbers; the remainder has the sign of the dividend.\<close>

definition js_add :: "jsnum \<Rightarrow> jsnum \<Rightarrow> jsnum" where
  "js_add a b = (case (a, b) of (Num i, Num j) \<Rightarrow> Num (i + j) | _ \<Rightarrow> NaN)"

definition js_rem :: "jsnum \<Rightarrow> jsnum \<Rightarrow> jsnum" where
  "js_rem a b =
     (case (a, b) of
        (Num i, Num j) \<Rightarrow> (if j = 0 then NaN else Num (sgn i * (\<bar>i\<bar> mod \<bar>j\<bar>)))
      | _ \<Rightarrow> NaN)"

fun getTileUrl :: "provider \<Rightarrow> jsnum \<Rightarrow> jsnum \<Rightarrow> jsnum \<Rightarrow> string" where
  "getTileUrl (GoogleTileProvider lp) x y z =
     ''https://mt.google.com/vt/lyrs=y&x='' @ js_show x @ ''&y='' @ js_show y
       @ ''&z='' @ js_show z @ lp"
| "getTileUrl (YandexTileProvider lp) x y z =
     ''https://core-renderer-tiles.maps.yandex.net/tiles?l=sat&x='' @ js_show x
       @ ''&y='' @ js_show y @ ''&z='' @ js_show z @ lp"
| "getTileUrl OpenStreetMapTileProvider x y z =
     ''https://tile.openstreetmap.org/'' @ js_show z @ ''/'' @ js_show x @ ''/''
       @ js_show y @ ''.png''"
| "getTileUrl BingTileProvider x y z =
     ''https://ecn.t'' @ js_show (js_rem (js_add x y) (Num 4))
       @ ''.tiles.virtualearth.net/tiles/a'' @ quadKey x y z @ ''.png?g=1''"

section \<open>Strings and paths\<close>

text \<open>\<^verbatim>\<open>s.split(c)\<close> for a one-character separator, and \<^verbatim>\<open>parts.join(sep)\<close>.\<close>

fun split_on :: "char \<Rightarrow> string \<Rightarrow> string list" where
  "split_on c [] = [[]]"
| "split_on c (x # xs) =
     (if x = c then [] # split_on c xs
      else (case split_on c xs of [] \<Rightarrow> [[x]] | f # fs \<Rightarrow> (x # f) # fs))"

fun join_with :: "string \<Rightarrow> string list \<Rightarrow> string" where
  "join_with sep [] = []"
| "join_with sep [s] = s"
| "join_with sep (s # ss) = s @ sep @ join_with sep ss"

text \<open>
  \<^verbatim>\<open>path.join\<close> of Node.js on a POSIX system: the non-empty arguments are joined with
  \<open>/\<close> and the result is normalised (empty and \<open>.\<close> segments dropped, \<open>..\<close> resolved).
  \<open>normalize_segments\<close> keeps the segments accepted so far, the last one first.
\<close>

fun normalize_segments :: "bool \<Rightarrow> string list \<Rightarrow> string list \<Rightarrow> string list" where
  "normalize_segments allowAboveRoot [] res = rev res"
| "normalize_segments allowAboveRoot (s # ss) res =
     (if s = [] \<or> s = ''.'' then normalize_segments allowAboveRoot ss res
      else if s = ''..'' then
        (case res of
           [] \<Rightarrow> normalize_segments allowAboveRoot ss (if allowAboveRoot then [''..''] else [])
         | r # rs \<Rightarrow>
             (if r = ''..'' then normalize_segments allowAboveRoot ss (if allowAboveRoot then ''..'' # res else res)
              else normalize_segments allowAboveRoot ss rs))
      else normalize_segments allowAboveRoot ss (s # res))"

definition path_normalize :: "string \<Rightarrow> string" where
  "path_normalize p =
     (if p = [] then ''.''
      else
        (let isAbsolute = (hd p = CHR ''/'');
             trailingSeparator = (last p = CHR ''/'');
             r = join_with ''/'' (normalize_segments (\<not> isAbsolute) (split_on CHR ''/'' p) [])
         in if r = [] then (if isAbsolute then ''/'' else if trailingSeparator then ''./'' else ''.'')
            else (if isAbsolute then ''/'' else []) @ r @ (if trailingSeparator then ''/'' else [])))"

definition path_join :: "string list \<Rightarrow> string" where
  "path_join args =
     (let parts = filter (\<lambda>a. a \<noteq> []) args
      in if parts = [] then ''.'' else path_normalize (join_with ''/'' parts))"

text \<open>The directories \<^verbatim>\<open>fs.mkdirSync(dir, { recursive: true })\<close> makes sure exist.\<close>

definition dir_chain :: "string \<Rightarrow> string list" where
  "dir_chain dir =
     (let segs = split_on CHR ''/'' dir
      in map (\<lambda>k. join_with ''/'' (take k segs)) [1..<Suc (length segs)])"

section \<open>The world of a run\<close>

text \<open>
  The state the scripts act on: the files and directories of the tile store, the failure
  ledger \<^verbatim>\<open>failed_tiles.log\<close> (\<open>None\<close> when the file is absent), and, as observations,
  the URLs requested with \<^verbatim>\<open>axios.get\<close>, the order in which tile tasks were started and
  settled, and the progress reports \<open>(completedTiles, totalTiles)\<close> written to the console.
  The timestamped log files are not part of the state; the calls that write to them are
  left out up to the section \<open>Runs in which a write fails\<close>, which puts them in place.
\<close>

type_synonym bytes = "nat list"

type_synonym tile = "jsnum \<times> jsnum \<times> jsnum"

datatype event = Started tile | Settled tile bool

record world =
  files :: "string \<Rightarrow> bytes option"
  dirs :: "string set"
  ledger :: "string option"
  fetched :: "string list"
  trace :: "event list"
  reports :: "(nat \<times> nat) list"

text \<open>
  What the run does not decide: the answer of the network to the \<open>n\<close>-th request (\<open>None\<close>
  for a failed request), what the disk does with the write that stores the answer of the
  \<open>n\<close>-th request, and which of the tasks in flight settles next. \<open>MkdirError k\<close> is a
  \<^verbatim>\<open>mkdirSync\<close> that throws after it has created \<open>k\<close> of the directories on the way.
  \<open>WriteError left\<close> is a \<^verbatim>\<open>writeFileSync\<close> that throws: with \<open>left = None\<close> before the file
  was created, with \<open>left = Some k\<close> after \<open>k\<close> bytes reached the file.
\<close>

datatype disk_outcome = Written | MkdirError nat | WriteError "nat option"

record env =
  net :: "nat \<Rightarrow> string \<Rightarrow> bytes option"
  disk :: "nat \<Rightarrow> string \<Rightarrow> bytes \<Rightarrow> disk_outcome"
  pick :: "nat \<Rightarrow> nat"

definition existsSync :: "world \<Rightarrow> string \<Rightarrow> bool" where
  "existsSync w p = (files w p \<noteq> None \<or> p \<in> dirs w)"

definition mkdirSync :: "string \<Rightarrow> world \<Rightarrow> world" where
  "mkdirSync dir w = w\<lparr>dirs := dirs w \<union> set (dir_chain dir)\<rparr>"

definition appendFileSync_ledger :: "string \<Rightarrow> world \<Rightarrow> world" where
  "appendFileSync_ledger text w =
     w\<lparr>ledger := Some (case ledger w of None \<Rightarrow> text | Some old \<Rightarrow> old @ text)\<rparr>"

section \<open>Saving a tile\<close>

text \<open>
  \<^verbatim>\<open>
  async function saveTile(tileUrl, x, y, z, provider) {
    const outputDir = path.join(TILE_FOLDER, provider, z.toString(), x.toString());
    const outputFile = path.join(outputDir, `${y}.png`);
    if (fs.existsSync(outputFile)) { ...log...; return; }
    try {
      const response = await axios.get(tileUrl, { responseType: 'arraybuffer' });
      fs.mkdirSync(outputDir, { recursive: true });
      fs.writeFileSync(outputFile, response.data);
      ...log...
    } catch (error) { ...log...; throw error; }
  }
  \<close>
  The function runs up to its \<^verbatim>\<open>await\<close> when it is called (\<open>saveTile_begin\<close>) and the
  rest when the answer of the network arrives (\<open>saveTile_resume\<close>, whose result says
  whether the promise was fulfilled).
\<close>

definition TILE_FOLDER :: string where
  "TILE_FOLDER = ''tiles''"

definition outputDir :: "string \<Rightarrow> jsnum \<Rightarrow> jsnum \<Rightarrow> string" where
  "outputDir provider z x = path_join [TILE_FOLDER, provider, js_show z, js_show x]"

definition outputFile :: "string \<Rightarrow> jsnum \<Rightarrow> jsnum \<Rightarrow> jsnum \<Rightarrow> string" where
  "outputFile provider z x y = path_join [outputDir provider z x, js_show y @ ''.png'']"

datatype pending = Resolved | Awaiting nat

definition saveTile_begin ::
  "string \<Rightarrow> jsnum \<Rightarrow> jsnum \<Rightarrow> jsnum \<Rightarrow> string \<Rightarrow> world \<Rightarrow> pending \<times> world" where
  "saveTile_begin tileUrl x y z provider w =
     (if existsSync w (outputFile provider z x y) then (Resolved, w)
      else (Awaiting (length (fetched w)), w\<lparr>fetched := fetched w @ [tileUrl]\<rparr>))"

definition writeFileSync :: "string \<Rightarrow> bytes \<Rightarrow> world \<Rightarrow> world" where
  "writeFileSync file content w = w\<lparr>files := (files w)(file \<mapsto> content)\<rparr>"

definition saveTile_resume ::
  "env \<Rightarrow> nat \<Rightarrow> string \<Rightarrow> jsnum \<Rightarrow> jsnum \<Rightarrow> jsnum \<Rightarrow> string \<Rightarrow> world \<Rightarrow> bool \<times> world" where
  "saveTile_resume e n tileUrl x y z provider w =
     (case net e n tileUrl of
        None \<Rightarrow> (False, w)
      | Some content \<Rightarrow>
          (case disk e n (outputFile provider z x y) content of
             MkdirError k \<Rightarrow>
               (False, w\<lparr>dirs := dirs w \<union> set (take k (dir_chain (outputDir provider z x)))\<rparr>)
           | WriteError None \<Rightarrow> (False, mkdirSync (outputDir provider z x) w)
           | WriteError (Some k) \<Rightarrow>
               (False, writeFileSync (outputFile provider z x y) (take k content)
                         (mkdirSync (outputDir provider z x) w))
           | Written \<Rightarrow>
               (True, writeFileSync (outputFile provider z x y) content
                        (mkdirSync (outputDir provider z x) w))))"

section \<open>Tile tasks and batches\<close>

text \<open>
  The closure pushed onto \<^verbatim>\<open>tilePromises\<close>:
  \<^verbatim>\<open>
  async () => {
    const tileUrl = providerInstance.getTileUrl(x, y, z, lang);
    try {
      await saveTile(tileUrl, x, y, z, providerInstance.name, lang);
      completedTiles++;
      ...report progress (completedTiles/totalTiles)...
    } catch (error) {
      fs.appendFileSync(FAILED_TILES_LOG, `${providerInstance.name},${z},${x},${y},${lang}\n`);
      ...log...
    }
  }
  \<close>
  A task holds what the closure captured. \<open>on_fail\<close> is the text its \<^verbatim>\<open>catch\<close> appends to
  the ledger; the closure of \<^verbatim>\<open>processFailedTiles\<close> only logs there, so it has \<open>None\<close>.
\<close>

record task =
  tile_of :: tile
  provider_of :: string
  url_of :: string
  on_fail :: "string option"

definition task_begin :: "task \<Rightarrow> world \<Rightarrow> pending \<times> world" where
  "task_begin t w =
     (case tile_of t of (x, y, z) \<Rightarrow>
        (case saveTile_begin (url_of t) x y z (provider_of t) w of
           (p, w') \<Rightarrow> (p, w'\<lparr>trace := trace w' @ [Started (tile_of t)]\<rparr>)))"

definition task_resume :: "env \<Rightarrow> nat \<Rightarrow> task \<times> pending \<Rightarrow> nat \<times> world \<Rightarrow> nat \<times> world" where
  "task_resume e totalTiles tp s =
     (case tp of (t, p) \<Rightarrow>
      case s of (completedTiles, w) \<Rightarrow>
      case tile_of t of (x, y, z) \<Rightarrow>
      case (case p of Resolved \<Rightarrow> (True, w)
                    | Awaiting n \<Rightarrow> saveTile_resume e n (url_of t) x y z (provider_of t) w) of
        (ok, w') \<Rightarrow>
          if ok
          then (completedTiles + 1,
                w'\<lparr>reports := reports w' @ [(completedTiles + 1, totalTiles)],
                   trace := trace w' @ [Settled (tile_of t) True]\<rparr>)
          else (completedTiles,
                (case on_fail t of None \<Rightarrow> w' | Some text \<Rightarrow> appendFileSync_ledger text w')
                  \<lparr>trace := trace w' @ [Settled (tile_of t) False]\<rparr>))"

text \<open>
  \<^verbatim>\<open>await Promise.all(tilePromises.map(promise => promise()))\<close>: every closure of the
  batch is called, in order, and runs up to its first \<^verbatim>\<open>await\<close>; then the tasks settle
  one at a time in an order the run does not control (\<open>pick\<close> chooses among the tasks
  still in flight), and the batch is over when none is left. A task whose tile is cached
  resumes before any answer of the network arrives; the model lets it settle at any
  point of the batch, which covers that order.
\<close>

fun start_all :: "task list \<Rightarrow> world \<Rightarrow> (task \<times> pending) list \<times> world" where
  "start_all [] w = ([], w)"
| "start_all (t # ts) w =
     (case task_begin t w of (p, w1) \<Rightarrow>
      case start_all ts w1 of (ps, w2) \<Rightarrow> ((t, p) # ps, w2))"

function settle_all ::
  "env \<Rightarrow> nat \<Rightarrow> (task \<times> pending) list \<Rightarrow> nat \<times> world \<Rightarrow> nat \<times> world" where
  "settle_all e totalTiles inflight s =
     (if inflight = [] then s
      else settle_all e totalTiles
             (take (pick e (length (trace (snd s))) mod length inflight) inflight
                @ drop (Suc (pick e (length (trace (snd s))) mod length inflight)) inflight)
             (task_resume e totalTiles
                (inflight ! (pick e (length (trace (snd s))) mod length inflight)) s))"
  by pat_completeness auto
termination
proof (relation "measure (\<lambda>(e, totalTiles, inflight, s). length inflight)", goal_cases)
  case 1
  show ?case by simp
next
  case (2 e totalTiles inflight s)
  then have "pick e (length (trace (snd s))) mod length inflight < length inflight"
    by simp
  then show ?case by simp
qed

declare settle_all.simps [simp del]

definition run_batch :: "env \<Rightarrow> nat \<Rightarrow> task list \<Rightarrow> nat \<times> world \<Rightarrow> nat \<times> world" where
  "run_batch e totalTiles tilePromises s =
     (case s of (completedTiles, w) \<Rightarrow>
      case start_all tilePromises w of (inflight, w') \<Rightarrow>
        settle_all e totalTiles inflight (completedTiles, w'))"

text \<open>
  The dispatch loop of \<^verbatim>\<open>downloadTilesForZoom\<close>, over the closures in the order the two
  nested \<^verbatim>\<open>for\<close> loops create them:
  \<^verbatim>\<open>
  tilePromises.push(async () => {...});
  if (tilePromises.length === maxThreads) {
    await Promise.all(tilePromises.map(promise => promise()));
    tilePromises.length = 0;
  }
  ...
  if (tilePromises.length > 0) { await Promise.all(tilePromises.map(promise => promise())); }
  \<close>
\<close>

fun dispatch ::
  "env \<Rightarrow> nat \<Rightarrow> int \<Rightarrow> task list \<Rightarrow> task list \<Rightarrow> nat \<times> world \<Rightarrow> nat \<times> world" where
  "dispatch e totalTiles maxThreads tilePromises [] s =
     (if length tilePromises > 0 then run_batch e totalTiles tilePromises s else s)"
| "dispatch e totalTiles maxThreads tilePromises (t # ts) s =
     (if int (length (tilePromises @ [t])) = maxThreads
      then dispatch e totalTiles maxThreads [] ts (run_batch e totalTiles (tilePromises @ [t]) s)
      else dispatch e totalTiles maxThreads (tilePromises @ [t]) ts s)"

section \<open>Downloading a zoom level\<close>

text \<open>
  The tiles the nested loops \<^verbatim>\<open>for x ... for y ... if (!bounds || isTileInBounds(...))\<close>
  reach, in their order.
\<close>

definition inBoundsTiles ::
  "nat \<Rightarrow> 'd number_ops \<Rightarrow> 'd BoundingBox option \<Rightarrow> (nat \<times> nat) list" where
  "inBoundsTiles z M bounds =
     concat (map (\<lambda>x. concat (map (\<lambda>y. if bounds = None \<or> isTileInBounds M x y z bounds
                                          then [(x, y)] else [])
                                  [0..<2 ^ z]))
                 [0..<2 ^ z])"

definition failed_record :: "provider \<Rightarrow> jsnum \<Rightarrow> jsnum \<Rightarrow> jsnum \<Rightarrow> string \<Rightarrow> string" where
  "failed_record providerInstance z x y lang =
     name providerInstance @ '','' @ js_show z @ '','' @ js_show x @ '','' @ js_show y
       @ '','' @ lang"

definition failed_line :: "provider \<Rightarrow> string \<Rightarrow> tile \<Rightarrow> string" where
  "failed_line providerInstance lang t =
     (case t of (x, y, z) \<Rightarrow> failed_record providerInstance z x y lang @ [CHR 0x0A])"

definition tile_task :: "provider \<Rightarrow> nat \<Rightarrow> string \<Rightarrow> nat \<times> nat \<Rightarrow> task" where
  "tile_task providerInstance z lang xy =
     (case xy of (x, y) \<Rightarrow>
        \<lparr>tile_of = (Num (int x), Num (int y), Num (int z)),
         provider_of = name providerInstance,
         url_of = getTileUrl providerInstance (Num (int x)) (Num (int y)) (Num (int z)),
         on_fail = Some (failed_line providerInstance lang
                           (Num (int x), Num (int y), Num (int z)))\<rparr>)"

definition zoom_tasks :: "provider \<Rightarrow> nat \<Rightarrow> 'd number_ops \<Rightarrow> 'd BoundingBox option \<Rightarrow> string \<Rightarrow> task list" where
  "zoom_tasks providerInstance z M bounds lang =
     map (tile_task providerInstance z lang) (inBoundsTiles z M bounds)"

definition downloadTilesForZoom_state ::
  "env \<Rightarrow> provider \<Rightarrow> nat \<Rightarrow> 'd number_ops \<Rightarrow> 'd BoundingBox option \<Rightarrow> int \<Rightarrow> string \<Rightarrow> world \<Rightarrow> nat \<times> world" where
  "downloadTilesForZoom_state e providerInstance z M bounds maxThreads lang w =
     (let totalTiles = length (inBoundsTiles z M bounds)
      in dispatch e totalTiles maxThreads [] (zoom_tasks providerInstance z M bounds lang) (0, w))"

text \<open>
  \<open>downloadTilesForZoom\<close> is the world the function leaves; \<open>completedTilesForZoom\<close> is
  the value of its local counter \<^verbatim>\<open>completedTiles\<close> when it returns.
\<close>

definition downloadTilesForZoom ::
  "env \<Rightarrow> provider \<Rightarrow> nat \<Rightarrow> 'd number_ops \<Rightarrow> 'd BoundingBox option \<Rightarrow> int \<Rightarrow> string \<Rightarrow> world \<Rightarrow> world" where
  "downloadTilesForZoom e providerInstance z M bounds maxThreads lang w =
     snd (downloadTilesForZoom_state e providerInstance z M bounds maxThreads lang w)"


text \<open>
  The loop of \<^verbatim>\<open>main\<close> over the zoom levels:
  \<^verbatim>\<open>
  for (let z = zoomStart; z <= zoomEnd; z++) {
    await downloadTilesForZoom(providerInstance, z, bounds, maxThreads, lang);
  }
  \<close>
\<close>

definition downloadZoomLevels ::
  "env \<Rightarrow> provider \<Rightarrow> nat \<Rightarrow> nat \<Rightarrow> 'd number_ops \<Rightarrow> 'd BoundingBox option \<Rightarrow> int \<Rightarrow> string \<Rightarrow> world \<Rightarrow> world" where
  "downloadZoomLevels e providerInstance zoomStart zoomEnd M bounds maxThreads lang w =
     fold (\<lambda>z. downloadTilesForZoom e providerInstance z M bounds maxThreads lang)
          [zoomStart..<Suc zoomEnd] w"

section \<open>Retrying the failed tiles\<close>

text \<open>
  \<^verbatim>\<open>s.trim()\<close> and \<^verbatim>\<open>parseInt(s)\<close>. Strings are byte strings here, so the white space
  is the ASCII white space. \<^verbatim>\<open>parseInt\<close> skips leading white space, reads a sign, a
  \<^verbatim>\<open>0x\<close> prefix and the longest run of digits, and ignores the rest; with no digit, or
  for \<^verbatim>\<open>undefined\<close> (\<open>None\<close>), it is \<^verbatim>\<open>NaN\<close>.
\<close>

definition is_space :: "char \<Rightarrow> bool" where
  "is_space c = (c \<in> set [CHR 0x09, CHR 0x0A, CHR 0x0B, CHR 0x0C, CHR 0x0D, CHR 0x20])"

definition js_trim :: "string \<Rightarrow> string" where
  "js_trim s = rev (dropWhile is_space (rev (dropWhile is_space s)))"

definition digit_value :: "nat \<Rightarrow> char \<Rightarrow> nat option" where
  "digit_value radix c =
     (let n = (of_char c :: nat)
      in if 48 \<le> n \<and> n \<le> 57 then Some (n - 48)
         else if radix = 16 \<and> 97 \<le> n \<and> n \<le> 102 then Some (n - 87)
         else if radix = 16 \<and> 65 \<le> n \<and> n \<le> 70 then Some (n - 55)
         else None)"

fun parse_digits :: "nat \<Rightarrow> string \<Rightarrow> nat option \<Rightarrow> nat option" where
  "parse_digits radix [] acc = acc"
| "parse_digits radix (c # cs) acc =
     (case digit_value radix c of
        None \<Rightarrow> acc
      | Some d \<Rightarrow>
          parse_digits radix cs (Some (radix * (case acc of None \<Rightarrow> 0 | Some a \<Rightarrow> a) + d)))"

definition parseInt :: "string option \<Rightarrow> jsnum" where
  "parseInt v =
     (case v of
        None \<Rightarrow> NaN
      | Some s \<Rightarrow>
          (let s1 = dropWhile is_space s;
               neg = (take 1 s1 = ''-'');
               s2 = (if take 1 s1 = ''-'' \<or> take 1 s1 = ''+'' then drop 1 s1 else s1);
               radix = (if take 2 s2 = ''0x'' \<or> take 2 s2 = ''0X'' then 16 else 10);
               s3 = (if radix = 16 then drop 2 s2 else s2)
           in case parse_digits radix s3 None of
                None \<Rightarrow> NaN
              | Some n \<Rightarrow> Num (if neg then - int n else int n)))"

text \<open>
  \<^verbatim>\<open>
  async function processFailedTiles(providerInstance, maxThreads) {
    if (!fs.existsSync(FAILED_TILES_LOG)) return;
    const failedTiles = fs.readFileSync(FAILED_TILES_LOG, 'utf-8').trim().split('\n');
    if (failedTiles.length === 0) return;
    const tilePromises = [];
    let completedTiles = 0;
    const totalTiles = failedTiles.length;
    for (const line of failedTiles) {
      const [providerName, z, x, y, lang] = line.split(',');
      tilePromises.push(async () => {
        const tileUrl = providerInstance.getTileUrl(parseInt(x), parseInt(y), parseInt(z), lang);
        try {
          await saveTile(tileUrl, parseInt(x), parseInt(y), parseInt(z), providerName, lang);
          completedTiles++;
          ...report progress...
        } catch (error) {
          logToFile(`Failed tile again: ${z},${x},${y},${lang}`);
        }
      });
      if (tilePromises.length === maxThreads) { await Promise.all(...); tilePromises.length = 0; }
    }
    if (tilePromises.length > 0) { await Promise.all(...); }
    fs.unlinkSync(FAILED_TILES_LOG);
  }
  \<close>
  A field the line does not have is \<^verbatim>\<open>undefined\<close>.
\<close>

definition nth_field :: "string list \<Rightarrow> nat \<Rightarrow> string option" where
  "nth_field parts k = (if k < length parts then Some (parts ! k) else None)"

definition retry_task :: "provider \<Rightarrow> string \<Rightarrow> task" where
  "retry_task providerInstance line =
     (let parts = split_on CHR '','' line;
          providerName = (case nth_field parts 0 of None \<Rightarrow> ''undefined'' | Some n \<Rightarrow> n);
          z = parseInt (nth_field parts 1);
          x = parseInt (nth_field parts 2);
          y = parseInt (nth_field parts 3)
      in \<lparr>tile_of = (x, y, z),
          provider_of = providerName,
          url_of = getTileUrl providerInstance x y z,
          on_fail = None\<rparr>)"

definition unlinkSync_ledger :: "world \<Rightarrow> world" where
  "unlinkSync_ledger w = w\<lparr>ledger := None\<rparr>"

definition processFailedTiles :: "env \<Rightarrow> provider \<Rightarrow> int \<Rightarrow> world \<Rightarrow> world" where
  "processFailedTiles e providerInstance maxThreads w =
     (case ledger w of
        None \<Rightarrow> w
      | Some text \<Rightarrow>
          (let failedTiles = split_on (CHR 0x0A) (js_trim text)
           in if length failedTiles = 0 then w
              else unlinkSync_ledger
                     (snd (dispatch e (length failedTiles) maxThreads []
                             (map (retry_task providerInstance) failedTiles) (0, w)))))"

text \<open>
  \<^verbatim>\<open>
  async function main() {
    ...read the arguments...
    const providerInstance = TileProviderFactory.create(providerName, lang);
    await processFailedTiles(providerInstance, maxThreads);
    for (let z = zoomStart; z <= zoomEnd; z++) {
      await downloadTilesForZoom(providerInstance, z, bounds, maxThreads, lang);
    }
    await processFailedTiles(providerInstance, maxThreads);
  }
  \<close>
  on the arguments as read from the command line, when every call of \<^verbatim>\<open>logToFile\<close> and
  every call on the ledger returns: then only \<^verbatim>\<open>TileProviderFactory.create\<close> throws.
  \<open>main_io\<close> below is the function with these calls in place.
\<close>

definition main ::
  "env \<Rightarrow> string \<Rightarrow> nat \<Rightarrow> nat \<Rightarrow> 'd number_ops \<Rightarrow> 'd BoundingBox option \<Rightarrow> string \<Rightarrow> int \<Rightarrow> world \<Rightarrow> error + world" where
  "main e providerName zoomStart zoomEnd M bounds lang maxThreads w =
     (case TileProviderFactory_create providerName (Some lang) of
        Inl err \<Rightarrow> Inl err
      | Inr providerInstance \<Rightarrow>
          Inr (processFailedTiles e providerInstance maxThreads
                 (downloadZoomLevels e providerInstance zoomStart zoomEnd M bounds maxThreads lang
                    (processFailedTiles e providerInstance maxThreads w))))"

section \<open>Reading a run\<close>

text \<open>
  The notions the statements below are phrased in. \<open>batches\<close> is the dispatch loop with
  the effects left out: the groups of closures it hands to \<^verbatim>\<open>Promise.all\<close>, in order.
\<close>

fun batches :: "int \<Rightarrow> 'a list \<Rightarrow> 'a list \<Rightarrow> 'a list list" where
  "batches maxThreads tilePromises [] = (if length tilePromises > 0 then [tilePromises] else [])"
| "batches maxThreads tilePromises (t # ts) =
     (if int (length (tilePromises @ [t])) = maxThreads
      then (tilePromises @ [t]) # batches maxThreads [] ts
      else batches maxThreads (tilePromises @ [t]) ts)"

definition zoom_tiles :: "nat \<Rightarrow> 'd number_ops \<Rightarrow> 'd BoundingBox option \<Rightarrow> tile list" where
  "zoom_tiles z M bounds =
     map (\<lambda>xy. (Num (int (fst xy)), Num (int (snd xy)), Num (int z))) (inBoundsTiles z M bounds)"

definition task_file :: "task \<Rightarrow> string" where
  "task_file t = (case tile_of t of (x, y, z) \<Rightarrow> outputFile (provider_of t) z x y)"

definition tile_file :: "provider \<Rightarrow> tile \<Rightarrow> string" where
  "tile_file providerInstance t = (case t of (x, y, z) \<Rightarrow> outputFile (name providerInstance) z x y)"

definition tile_url :: "provider \<Rightarrow> tile \<Rightarrow> string" where
  "tile_url providerInstance t = (case t of (x, y, z) \<Rightarrow> getTileUrl providerInstance x y z)"

definition run_tiles :: "nat \<Rightarrow> nat \<Rightarrow> 'd number_ops \<Rightarrow> 'd BoundingBox option \<Rightarrow> tile list" where
  "run_tiles zoomStart zoomEnd M bounds =
     concat (map (\<lambda>z. zoom_tiles z M bounds) [zoomStart..<Suc zoomEnd])"

definition task_outcome :: "env \<Rightarrow> task \<times> pending \<Rightarrow> world \<Rightarrow> bool" where
  "task_outcome e tp w =
     (case tp of (t, p) \<Rightarrow>
      case tile_of t of (x, y, z) \<Rightarrow>
      case p of Resolved \<Rightarrow> True
              | Awaiting n \<Rightarrow> fst (saveTile_resume e n (url_of t) x y z (provider_of t) w))"

definition new_events :: "world \<Rightarrow> world \<Rightarrow> event list" where
  "new_events w w' = drop (length (trace w)) (trace w')"


definition new_fetches :: "world \<Rightarrow> world \<Rightarrow> string list" where
  "new_fetches w w' = drop (length (fetched w)) (fetched w')"

definition ledger_text :: "world \<Rightarrow> string" where
  "ledger_text w = (case ledger w of None \<Rightarrow> [] | Some text \<Rightarrow> text)"

fun event_tile :: "event \<Rightarrow> tile" where
  "event_tile (Started t) = t"
| "event_tile (Settled t ok) = t"

fun is_settled :: "event \<Rightarrow> bool" where
  "is_settled (Started t) = False"
| "is_settled (Settled t ok) = True"

fun started_tiles :: "event list \<Rightarrow> tile list" where
  "started_tiles [] = []"
| "started_tiles (Started t # es) = t # started_tiles es"
| "started_tiles (Settled t ok # es) = started_tiles es"

fun failed_tiles :: "event list \<Rightarrow> tile list" where
  "failed_tiles [] = []"
| "failed_tiles (Started t # es) = failed_tiles es"
| "failed_tiles (Settled t ok # es) = (if ok then failed_tiles es else t # failed_tiles es)"

fun completed_count :: "event list \<Rightarrow> nat" where
  "completed_count [] = 0"
| "completed_count (Started t # es) = completed_count es"
| "completed_count (Settled t ok # es) = (if ok then Suc (completed_count es) else completed_count es)"

text \<open>
  \<open>settles b es\<close>: the events \<open>es\<close> settle each task of the batch \<open>b\<close> once, in any order.
  \<open>barrier_trace bs es\<close>: the events are, batch after batch, the starts of the whole
  batch in order followed by the settlements of exactly that batch.
\<close>

definition settles :: "tile list \<Rightarrow> event list \<Rightarrow> bool" where
  "settles b es = (list_all is_settled es \<and> mset (map event_tile es) = mset b)"

fun barrier_trace :: "tile list list \<Rightarrow> event list \<Rightarrow> bool" where
  "barrier_trace [] es = (es = [])"
| "barrier_trace (b # bs) es =
     (take (length b) es = map Started b
      \<and> settles b (take (length b) (drop (length b) es))
      \<and> barrier_trace bs (drop (2 * length b) es))"

text \<open>
  Two summaries of a stretch of a run, used to carry facts from one task to a batch, a
  zoom level and a run. \<open>advance f tot s s' es\<close>: from \<open>s\<close> to \<open>s'\<close> the events \<open>es\<close> were
  recorded, the counter grew by the number of fulfilled tasks, one progress report was
  written for each of them, and the ledger received the line \<open>f t\<close> of every tile \<open>t\<close>
  that failed. \<open>store_step T w w'\<close>: from \<open>w\<close> to \<open>w'\<close> directories were only added, and
  none when the file of every task of \<open>T\<close> existed in \<open>w\<close>; a file changed only if it did
  not exist in \<open>w\<close> and is the file of a task of \<open>T\<close>; and only tasks of \<open>T\<close> whose file
  did not exist in \<open>w\<close> sent a request.
\<close>

definition advance ::
  "(tile \<Rightarrow> string) \<Rightarrow> nat \<Rightarrow> nat \<times> world \<Rightarrow> nat \<times> world \<Rightarrow> event list \<Rightarrow> bool" where
  "advance f tot s s' es =
     (trace (snd s') = trace (snd s) @ es
      \<and> fst s' = fst s + completed_count es
      \<and> reports (snd s')
          = reports (snd s) @ map (\<lambda>k. (k, tot)) [Suc (fst s)..<Suc (fst s + completed_count es)]
      \<and> ledger (snd s')
          = (if failed_tiles es = [] then ledger (snd s)
             else Some (ledger_text (snd s) @ concat (map f (failed_tiles es)))))"

definition logged :: "(tile \<Rightarrow> string) \<Rightarrow> world \<Rightarrow> world \<Rightarrow> event list \<Rightarrow> bool" where
  "logged f w w' es =
     (trace w' = trace w @ es
      \<and> ledger w'
          = (if failed_tiles es = [] then ledger w
             else Some (ledger_text w @ concat (map f (failed_tiles es)))))"

definition store_step :: "task list \<Rightarrow> world \<Rightarrow> world \<Rightarrow> bool" where
  "store_step T w w' =
     (dirs w \<subseteq> dirs w'
      \<and> ((\<forall>t\<in>set T. existsSync w (task_file t)) \<longrightarrow> dirs w' = dirs w)
      \<and> (\<forall>path. files w' path = files w path
                  \<or> (\<not> existsSync w path \<and> path \<in> task_file ` set T))
      \<and> (\<exists>us. fetched w' = fetched w @ us
                \<and> set us \<subseteq> url_of ` {t \<in> set T. \<not> existsSync w (task_file t)}))"



text \<open>
  A world with an empty store and no ledger, and two environments for concrete runs:
  one in which every request fails, one in which every request is answered with three
  bytes and stored.
\<close>

definition empty_world :: world where
  "empty_world =
     \<lparr>files = (\<lambda>path. None), dirs = {}, ledger = None, fetched = [], trace = [], reports = []\<rparr>"

definition offline :: env where
  "offline = \<lparr>net = (\<lambda>n url. None), disk = (\<lambda>n file content. Written), pick = (\<lambda>k. 0)\<rparr>"

definition online :: env where
  "online = \<lparr>net = (\<lambda>n url. Some [1, 2, 3]), disk = (\<lambda>n file content. Written), pick = (\<lambda>k. 0)\<rparr>"


definition flaky :: env where
  "flaky = \<lparr>net = (\<lambda>n url. if n = 0 then None else Some [1, 2, 3]),
            disk = (\<lambda>n file content. Written), pick = (\<lambda>k. 0)\<rparr>"

definition main_world ::
  "env \<times> string \<times> nat \<times> nat \<times> 'd number_ops \<times> 'd BoundingBox option \<times> string \<times> int \<Rightarrow> world \<Rightarrow> world" where
  "main_world r w =
     (case r of (e, providerName, zoomStart, zoomEnd, M, bounds, lang, maxThreads) \<Rightarrow>
        (case main e providerName zoomStart zoomEnd M bounds lang maxThreads w of
           Inl err \<Rightarrow> w
         | Inr w' \<Rightarrow> w'))"

definition run_sequence ::
  "(env \<times> string \<times> nat \<times> nat \<times> 'd number_ops \<times> 'd BoundingBox option \<times> string \<times> int) list \<Rightarrow> world \<Rightarrow> world" where
  "run_sequence rs w = fold main_world rs w"

text \<open>
  The records of the two older scripts: \<^verbatim>\<open>downloadTilesParallel\<close> (first script of
  \<^verbatim>\<open>index.js\<close>) appends \<^verbatim>\<open>`${providerInstance.name},${z},${x},${y}\n`\<close>, and
  \<^verbatim>\<open>logFailedTile\<close> (the oldest script) appends \<^verbatim>\<open>`${provider},${z},${x},${y}\n`\<close>.
\<close>

definition failed_record_parallel :: "provider \<Rightarrow> jsnum \<Rightarrow> jsnum \<Rightarrow> jsnum \<Rightarrow> string" where
  "failed_record_parallel providerInstance z x y =
     name providerInstance @ '','' @ js_show z @ '','' @ js_show x @ '','' @ js_show y"

definition logFailedTile_entry :: "string \<Rightarrow> jsnum \<Rightarrow> jsnum \<Rightarrow> jsnum \<Rightarrow> string" where
  "logFailedTile_entry provider z x y =
     provider @ '','' @ js_show z @ '','' @ js_show x @ '','' @ js_show y @ [CHR 0x0A]"

text \<open>An environment whose disk fails every write after the first byte.\<close>

definition torn :: env where
  "torn = \<lparr>net = (\<lambda>n url. Some [1, 2, 3]), disk = (\<lambda>n file content. WriteError (Some 1)),
           pick = (\<lambda>k. 0)\<rparr>"




fun requests :: "(task \<times> pending) list \<Rightarrow> (nat \<times> string) list" where
  "requests [] = []"
| "requests ((t, Resolved) # tps) = requests tps"
| "requests ((t, Awaiting n) # tps) = (n, url_of t) # requests tps"



section \<open>Runs in which a write fails\<close>

text \<open>
  Every message of the second script goes to a log file through \<^verbatim>\<open>logToFile\<close>, which
  no caller guards:
  \<^verbatim>\<open>
  function logToFile(message) {
    if (logLines >= MAX_LOG_LINES) { logFileName = getLogFileName(); logLines = 0; }
    fs.appendFileSync(logFileName, `${new Date().toISOString()} - ${message}\n`);
    logLines++;
  }
  \<close>
  and the closures of \<^verbatim>\<open>downloadTilesForZoom\<close> append to the ledger in their \<^verbatim>\<open>catch\<close>.
  Whether these calls return or throw is not decided by the run: \<open>log_ok i k\<close> says
  whether the \<open>k\<close>-th call of \<^verbatim>\<open>logToFile\<close> returns, and \<open>ledger_ok i k\<close> whether the \<open>k\<close>-th
  call of \<^verbatim>\<open>fs\<close> on the ledger (\<^verbatim>\<open>appendFileSync\<close>, \<^verbatim>\<open>readFileSync\<close>, \<^verbatim>\<open>unlinkSync\<close>)
  returns; a call that throws leaves the file as it was. An \<open>io_world\<close> is a world with
  the numbers of the calls made so far.

  The functions of this section, named with \<open>_io\<close>, are the functions of the script with
  these calls in place. Each returns how it ended, \<open>None\<close> for a return or a fulfilled
  promise and the error otherwise, together with the world it leaves. The functions of
  the sections above are the same functions when every such call returns.
\<close>

record io =
  log_ok :: "nat \<Rightarrow> bool"
  ledger_ok :: "nat \<Rightarrow> bool"

record io_world =
  the_world :: world
  logCalls :: nat
  ledgerCalls :: nat

definition on_world :: "(world \<Rightarrow> world) \<Rightarrow> io_world \<Rightarrow> io_world" where
  "on_world f st = st\<lparr>the_world := f (the_world st)\<rparr>"

definition logToFile :: "io \<Rightarrow> io_world \<Rightarrow> error option \<times> io_world" where
  "logToFile i st =
     (if log_ok i (logCalls st) then None else Some LogFileError,
      st\<lparr>logCalls := Suc (logCalls st)\<rparr>)"

definition ledger_call :: "io \<Rightarrow> (world \<Rightarrow> world) \<Rightarrow> io_world \<Rightarrow> error option \<times> io_world" where
  "ledger_call i f st =
     (if ledger_ok i (ledgerCalls st)
      then (None, (on_world f st)\<lparr>ledgerCalls := Suc (ledgerCalls st)\<rparr>)
      else (Some LedgerFileError, st\<lparr>ledgerCalls := Suc (ledgerCalls st)\<rparr>))"

text \<open>
  \<^verbatim>\<open>saveTile\<close> with its calls of \<^verbatim>\<open>logToFile\<close>:
  \<^verbatim>\<open>
  if (fs.existsSync(outputFile)) {
    logToFile(`Tile already exists: ${outputFile}`);
    return;
  }
  try {
    const response = await axios.get(tileUrl, { responseType: 'arraybuffer' });
    fs.mkdirSync(outputDir, { recursive: true });
    fs.writeFileSync(outputFile, response.data);
    logToFile(`Saved tile: ${outputFile}`);
  } catch (error) {
    logToFile(`Failed to save tile: ${tileUrl}`);
    throw error;
  }
  \<close>
  When it is called it returns (\<open>Fulfilled\<close>), throws in the log call of the cached
  branch (\<open>Rejected\<close>) or sends a request (\<open>Requested n\<close>). \<open>saveTile_resume\<close> is the
  \<^verbatim>\<open>try\<close> block up to its log call; a log call that throws there is caught by the
  \<^verbatim>\<open>catch\<close> block like any other error, and the \<^verbatim>\<open>catch\<close> block ends with a throw
  whatever its own log call does.
\<close>

datatype pending_io = Fulfilled | Rejected | Requested nat


definition saveTile_resume_io ::
  "env \<Rightarrow> io \<Rightarrow> nat \<Rightarrow> string \<Rightarrow> jsnum \<Rightarrow> jsnum \<Rightarrow> jsnum \<Rightarrow> string \<Rightarrow> io_world
     \<Rightarrow> bool \<times> io_world" where
  "saveTile_resume_io e i n tileUrl x y z provider st =
     (case saveTile_resume e n tileUrl x y z provider (the_world st) of
        (stored, w') \<Rightarrow>
          (if stored
           then (case logToFile i (st\<lparr>the_world := w'\<rparr>) of
                   (None, st1) \<Rightarrow> (True, st1)
                 | (Some err, st1) \<Rightarrow> (False, snd (logToFile i st1)))
           else (False, snd (logToFile i (st\<lparr>the_world := w'\<rparr>)))))"

text \<open>
  The closure of \<^verbatim>\<open>downloadTilesForZoom\<close> with its calls:
  \<^verbatim>\<open>
  try {
    await saveTile(tileUrl, x, y, z, providerInstance.name, lang);
    completedTiles++;
    const progress = ((completedTiles / totalTiles) * 100).toFixed(2);
    console.log(`Progress for zoom level ${z}: ${progress}% (${completedTiles}/${totalTiles})`);
    logToFile(`Progress for zoom level ${z}: ${progress}% (${completedTiles}/${totalTiles})`);
  } catch (error) {
    fs.appendFileSync(FAILED_TILES_LOG, `${providerInstance.name},${z},${x},${y},${lang}\n`);
    logToFile(`Failed tile: ${z},${x},${y},${lang}`);
  }
  \<close>
  and the one of \<^verbatim>\<open>processFailedTiles\<close>, whose \<^verbatim>\<open>catch\<close> block is the log call alone. An
  error thrown in the \<^verbatim>\<open>catch\<close> block rejects the promise of the closure. The event
  \<open>Settled t ok\<close> records that the closure is over, with \<open>ok\<close> when its \<^verbatim>\<open>try\<close> block
  reached its end.
\<close>

definition settled :: "task \<Rightarrow> bool \<Rightarrow> io_world \<Rightarrow> io_world" where
  "settled t ok st = on_world (\<lambda>w. w\<lparr>trace := trace w @ [Settled (tile_of t) ok]\<rparr>) st"

definition closure_catch :: "io \<Rightarrow> task \<Rightarrow> io_world \<Rightarrow> error option \<times> io_world" where
  "closure_catch i t st =
     (case (case on_fail t of
              None \<Rightarrow> (None, st)
            | Some text \<Rightarrow> ledger_call i (appendFileSync_ledger text) st) of
        (Some err, st1) \<Rightarrow> (Some err, settled t False st1)
      | (None, st1) \<Rightarrow>
          (case logToFile i st1 of (err, st2) \<Rightarrow> (err, settled t False st2)))"


definition task_resume_io ::
  "env \<Rightarrow> io \<Rightarrow> nat \<Rightarrow> task \<times> pending_io \<Rightarrow> nat \<times> io_world
     \<Rightarrow> error option \<times> nat \<times> io_world" where
  "task_resume_io e i totalTiles tp s =
     (case tp of (t, p) \<Rightarrow>
      case s of (completedTiles, st) \<Rightarrow>
      case tile_of t of (x, y, z) \<Rightarrow>
      case (case p of Fulfilled \<Rightarrow> (True, st)
                    | Rejected \<Rightarrow> (False, st)
                    | Requested n \<Rightarrow>
                        saveTile_resume_io e i n (url_of t) x y z (provider_of t) st) of
        (ok, st1) \<Rightarrow>
          if ok
          then (case logToFile i
                       (on_world (\<lambda>w. w\<lparr>reports := reports w @ [(completedTiles + 1, totalTiles)]\<rparr>)
                          st1) of
                  (None, st2) \<Rightarrow> (None, completedTiles + 1, settled t True st2)
                | (Some err, st2) \<Rightarrow>
                    (case closure_catch i t st2 of
                       (err', st3) \<Rightarrow> (err', completedTiles + 1, st3)))
          else (case closure_catch i t st1 of
                  (err', st2) \<Rightarrow> (err', completedTiles, st2)))"


definition first_error ::
  "error option \<Rightarrow> error option \<times> nat \<times> io_world \<Rightarrow> error option \<times> nat \<times> io_world" where
  "first_error err r = (case err of None \<Rightarrow> r | Some x \<Rightarrow> (Some x, snd r))"

function settle_all_io ::
  "env \<Rightarrow> io \<Rightarrow> nat \<Rightarrow> (task \<times> pending_io) list \<Rightarrow> error option \<times> nat \<times> io_world
     \<Rightarrow> error option \<times> nat \<times> io_world" where
  "settle_all_io e i totalTiles inflight r =
     (if inflight = [] then r
      else settle_all_io e i totalTiles
             (take (pick e (length (trace (the_world (snd (snd r))))) mod length inflight) inflight
                @ drop (Suc (pick e (length (trace (the_world (snd (snd r))))) mod length inflight))
                    inflight)
             (first_error (fst r)
                (task_resume_io e i totalTiles
                   (inflight ! (pick e (length (trace (the_world (snd (snd r))))) mod length inflight))
                   (snd r))))"
  by pat_completeness auto
termination
proof (relation "measure (\<lambda>(e, i, totalTiles, inflight, r). length inflight)", goal_cases)
  case 1
  show ?case by simp
next
  case (2 e i totalTiles inflight r)
  then have "pick e (length (trace (the_world (snd (snd r))))) mod length inflight < length inflight"
    by simp
  then show ?case by simp
qed

declare settle_all_io.simps [simp del]














section \<open>Facts about quad keys\<close>

lemma js_show_digit:
  "d < 10 \<Longrightarrow> js_show (Num (int d)) = [digit_char d]"
  by (simp add: js_show_def digits10.simps)

lemma mask_test_nat:
  "i < 32 \<Longrightarrow> (ToInt32 (Num (int x)) AND push_bit i 1 \<noteq> 0) = (bit_at i x = 1)"
  by (simp add: ToInt32_def bit_at_def and_exp_eq_0_iff_not_bit bit_of_nat_iff_bit
      bit_unsigned_iff bit_simps bit_nat_def odd_iff_mod_2_eq_one)

lemma js_show_quad_digits:
  "js_show (Num 0) = [digit_char 0]" "js_show (Num 1) = [digit_char 1]"
  "js_show (Num 2) = [digit_char 2]" "js_show (Num 3) = [digit_char 3]"
  using js_show_digit [of 0] js_show_digit [of 1] js_show_digit [of 2] js_show_digit [of 3]
  by simp_all

lemma quadKey_digit_cases:
  "quadKey_digit x y i = 0 \<or> quadKey_digit x y i = 1
   \<or> quadKey_digit x y i = 2 \<or> quadKey_digit x y i = 3"
  by (simp add: quadKey_digit_def Let_def)

lemma quadKey_digit_spec:
  assumes "i < 32"
  shows "js_show (Num (quadKey_digit (Num (int x)) (Num (int y)) i))
         = [digit_char (bit_at i x + 2 * bit_at i y)]"
proof -
  have bx: "bit_at i x = 0 \<or> bit_at i x = 1" and by': "bit_at i y = 0 \<or> bit_at i y = 1"
    by (auto simp: bit_at_def)
  have m: "i mod 32 = i" using assms by simp
  show ?thesis
    unfolding quadKey_digit_def Let_def m mask_test_nat [OF assms]
    using bx by' by (auto simp: js_show_quad_digits numeral_2_eq_2 numeral_3_eq_3)
qed

lemma quadKey_loop_spec:
  "n \<le> 32 \<Longrightarrow>
   quadKey_loop (Num (int x)) (Num (int y)) n key
     = key @ map (\<lambda>i. digit_char (bit_at i x + 2 * bit_at i y)) (rev [0..<n])"
proof (induction n arbitrary: key)
  case 0
  then show ?case by simp
next
  case (Suc n)
  then have n: "n < 32" "n \<le> 32" by simp_all
  show ?case
    by (simp add: quadKey_digit_spec [OF n(1)] Suc.IH [OF n(2)])
qed

lemma quadKey_digit_char:
  "set (js_show (Num (quadKey_digit x y i))) \<subseteq> {CHR ''0'', CHR ''1'', CHR ''2'', CHR ''3''}"
  using quadKey_digit_cases [of x y i]
  by (auto simp: js_show_quad_digits digit_char_def)

lemma quadKey_digit_length: "length (js_show (Num (quadKey_digit x y i))) = 1"
  using quadKey_digit_cases [of x y i] by (auto simp: js_show_quad_digits)

lemma quadKey_loop_length:
  "length (quadKey_loop x y n key) = length key + n"
  by (induction n arbitrary: key) (simp_all add: quadKey_digit_length)

lemma quadKey_loop_chars:
  "set (quadKey_loop x y n key) \<subseteq> set key \<union> {CHR ''0'', CHR ''1'', CHR ''2'', CHR ''3''}"
proof (induction n arbitrary: key)
  case 0
  show ?case by auto
next
  case (Suc n)
  show ?case
    using Suc.IH [of "key @ js_show (Num (quadKey_digit x y n))"] quadKey_digit_char [of x y n]
    by auto
qed

section \<open>Facts about the bounds test\<close>

text \<open>With the arithmetic of the real numbers the test is the formula itself.\<close>

lemma isTileInBounds_exact:
  "isTileInBounds exact x y z (Some b)
     = (south b \<le> arctan (sinh (pi * (1 - 2 * real y / 2 ^ z))) * 180 / pi
        \<and> arctan (sinh (pi * (1 - 2 * real y / 2 ^ z))) * 180 / pi \<le> north b
        \<and> west b \<le> real x / 2 ^ z * 360 - 180
        \<and> real x / 2 ^ z * 360 - 180 \<le> east b)"
proof -
  have p: "(2::real) powr real z = 2 ^ z"
    by (simp add: powr_realpow)
  show ?thesis
    by (simp add: isTileInBounds_def exact_def ge_def le_def Let_def p not_less)
qed

section \<open>Facts about runs\<close>

subsection \<open>Batches\<close>

lemma concat_batches: "concat (batches c p ts) = p @ ts"
  by (induction ts arbitrary: p) auto



lemma batches_map: "batches c (map f p) (map f ts) = map (map f) (batches c p ts)"
proof (induction ts arbitrary: p)
  case Nil
  show ?case by simp
next
  case (Cons t ts)
  show ?case using Cons.IH [of "[]"] Cons.IH [of "p @ [t]"] by simp
qed

lemma dispatch_batches:
  "dispatch e tot c p ts s = fold (run_batch e tot) (batches c p ts) s"
  by (induction ts arbitrary: p s) auto

subsection \<open>One task\<close>

lemma task_begin_trace [simp]:
  "trace (snd (task_begin t w)) = trace w @ [Started (tile_of t)]"
  by (simp add: task_begin_def saveTile_begin_def split: prod.splits)

lemma task_begin_pending:
  "fst (task_begin t w)
     = (if existsSync w (task_file t) then Resolved else Awaiting (length (fetched w)))"
  by (simp add: task_begin_def saveTile_begin_def task_file_def split: prod.splits)

lemma task_begin_fetched:
  "fetched (snd (task_begin t w))
     = (if existsSync w (task_file t) then fetched w else fetched w @ [url_of t])"
  by (simp add: task_begin_def saveTile_begin_def task_file_def split: prod.splits)

lemma task_begin_same [simp]:
  "files (snd (task_begin t w)) = files w"
  "dirs (snd (task_begin t w)) = dirs w"
  "ledger (snd (task_begin t w)) = ledger w"
  "reports (snd (task_begin t w)) = reports w"
  by (simp_all add: task_begin_def saveTile_begin_def split: prod.splits)

lemma task_resume_trace [simp]:
  "trace (snd (task_resume e tot tp (c, w)))
     = trace w @ [Settled (tile_of (fst tp)) (task_outcome e tp w)]"
  by (cases tp)
     (auto simp: task_resume_def task_outcome_def saveTile_resume_def appendFileSync_ledger_def
        mkdirSync_def writeFileSync_def
        split: prod.splits pending.splits option.splits disk_outcome.splits)

lemma task_resume_count [simp]:
  "fst (task_resume e tot tp (c, w)) = (if task_outcome e tp w then Suc c else c)"
  by (cases tp)
     (auto simp: task_resume_def task_outcome_def
        split: prod.splits pending.splits)

lemma task_resume_reports [simp]:
  "reports (snd (task_resume e tot tp (c, w)))
     = (if task_outcome e tp w then reports w @ [(Suc c, tot)] else reports w)"
  by (cases tp)
     (auto simp: task_resume_def task_outcome_def saveTile_resume_def appendFileSync_ledger_def
        mkdirSync_def writeFileSync_def
        split: prod.splits pending.splits option.splits disk_outcome.splits)

lemma task_resume_ledger [simp]:
  "ledger (snd (task_resume e tot tp (c, w)))
     = (if task_outcome e tp w then ledger w
        else (case on_fail (fst tp) of None \<Rightarrow> ledger w
              | Some text \<Rightarrow> Some (ledger_text w @ text)))"
  by (cases tp)
     (auto simp: task_resume_def task_outcome_def saveTile_resume_def appendFileSync_ledger_def
        mkdirSync_def writeFileSync_def ledger_text_def
        split: prod.splits pending.splits option.splits disk_outcome.splits)

lemma task_resume_fetched [simp]:
  "fetched (snd (task_resume e tot tp (c, w))) = fetched w"
  by (cases tp)
     (auto simp: task_resume_def task_outcome_def saveTile_resume_def appendFileSync_ledger_def
        mkdirSync_def writeFileSync_def
        split: prod.splits pending.splits option.splits disk_outcome.splits)

subsection \<open>Events\<close>

lemma completed_count_append [simp]:
  "completed_count (es @ es') = completed_count es + completed_count es'"
  by (induction es rule: completed_count.induct) auto

lemma failed_tiles_append [simp]:
  "failed_tiles (es @ es') = failed_tiles es @ failed_tiles es'"
  by (induction es rule: failed_tiles.induct) auto

lemma started_tiles_append [simp]:
  "started_tiles (es @ es') = started_tiles es @ started_tiles es'"
  by (induction es rule: started_tiles.induct) auto

lemma started_tiles_Started [simp]: "started_tiles (map Started b) = b"
  by (induction b) auto

lemma failed_tiles_Started [simp]: "failed_tiles (map Started b) = []"
  by (induction b) auto

lemma completed_count_Started [simp]: "completed_count (map Started b) = 0"
  by (induction b) auto

lemma started_tiles_settled [simp]: "list_all is_settled es \<Longrightarrow> started_tiles es = []"
  by (induction es rule: started_tiles.induct) auto

subsection \<open>Composing steps\<close>

lemma advance_refl: "advance f tot s s []"
  by (simp add: advance_def)

lemma upt_split: "[Suc a..<Suc (a + m + n)] = [Suc a..<Suc (a + m)] @ [Suc (a + m)..<Suc (a + m + n)]"
proof -
  have "[Suc a..<Suc (a + m) + n] = [Suc a..<Suc (a + m)] @ [Suc (a + m)..<Suc (a + m) + n]"
    by (rule upt_add_eq_append) simp
  then show ?thesis by simp
qed

lemma ledger_text_Some [simp]: "ledger w = Some text \<Longrightarrow> ledger_text w = text"
  by (simp add: ledger_text_def)

lemma advance_trans:
  assumes "advance f tot s s' es" and "advance f tot s' s'' es'"
  shows "advance f tot s s'' (es @ es')"
proof -
  have t: "trace (snd s'') = trace (snd s) @ es @ es'"
    using assms by (simp add: advance_def)
  have c: "fst s'' = fst s + completed_count (es @ es')"
    using assms by (simp add: advance_def)
  have r: "reports (snd s'')
      = reports (snd s) @ map (\<lambda>k. (k, tot)) [Suc (fst s)..<Suc (fst s + completed_count (es @ es'))]"
    using assms upt_split [of "fst s" "completed_count es" "completed_count es'"]
    by (simp add: advance_def add.assoc del: upt_Suc)
  have l: "ledger (snd s'')
      = (if failed_tiles (es @ es') = [] then ledger (snd s)
         else Some (ledger_text (snd s) @ concat (map f (failed_tiles (es @ es')))))"
  proof -
    have l1: "ledger (snd s') = (if failed_tiles es = [] then ledger (snd s)
             else Some (ledger_text (snd s) @ concat (map f (failed_tiles es))))"
      using assms(1) by (simp add: advance_def)
    have l2: "ledger (snd s'') = (if failed_tiles es' = [] then ledger (snd s')
             else Some (ledger_text (snd s') @ concat (map f (failed_tiles es'))))"
      using assms(2) by (simp add: advance_def)
    have lt: "ledger_text (snd s') = ledger_text (snd s) @ concat (map f (failed_tiles es))"
      using l1 by (simp add: ledger_text_def)
    show ?thesis
      unfolding l2 lt using l1 by simp
  qed
  show ?thesis
    unfolding advance_def using t c r l by simp
qed

lemma existsSync_same:
  "files w' = files w \<Longrightarrow> dirs w' = dirs w \<Longrightarrow> existsSync w' = existsSync w"
  by (simp add: existsSync_def fun_eq_iff)

lemma store_step_refl: "store_step T w w"
  by (simp add: store_step_def)

lemma store_step_exists:
  "store_step T w w' \<Longrightarrow> existsSync w path \<Longrightarrow> existsSync w' path"
  unfolding store_step_def existsSync_def by (metis subsetD)

lemma store_step_trans:
  assumes "store_step T w w'" and "store_step T w' w''"
  shows "store_step T w w''"
proof -
  have ex: "\<And>path. existsSync w path \<Longrightarrow> existsSync w' path"
    using assms(1) by (rule store_step_exists)
  have d: "dirs w \<subseteq> dirs w''"
    using assms unfolding store_step_def by blast
  have d': "(\<forall>t\<in>set T. existsSync w (task_file t)) \<longrightarrow> dirs w'' = dirs w"
  proof
    assume a: "\<forall>t\<in>set T. existsSync w (task_file t)"
    then have "\<forall>t\<in>set T. existsSync w' (task_file t)" using ex by blast
    then have "dirs w'' = dirs w'" using assms(2) unfolding store_step_def by blast
    moreover have "dirs w' = dirs w" using a assms(1) unfolding store_step_def by blast
    ultimately show "dirs w'' = dirs w" by simp
  qed
  have f: "\<forall>path. files w'' path = files w path
                  \<or> (\<not> existsSync w path \<and> path \<in> task_file ` set T)"
  proof
    fix path
    have 1: "files w' path = files w path \<or> (\<not> existsSync w path \<and> path \<in> task_file ` set T)"
      using assms(1) unfolding store_step_def by blast
    have 2: "files w'' path = files w' path \<or> (\<not> existsSync w' path \<and> path \<in> task_file ` set T)"
      using assms(2) unfolding store_step_def by blast
    show "files w'' path = files w path
                  \<or> (\<not> existsSync w path \<and> path \<in> task_file ` set T)"
      using 1 2 ex [of path] by auto
  qed
  obtain us where us: "fetched w' = fetched w @ us"
      "set us \<subseteq> url_of ` {t \<in> set T. \<not> existsSync w (task_file t)}"
    using assms(1) unfolding store_step_def by blast
  obtain vs where vs: "fetched w'' = fetched w' @ vs"
      "set vs \<subseteq> url_of ` {t \<in> set T. \<not> existsSync w' (task_file t)}"
    using assms(2) unfolding store_step_def by blast
  have "set vs \<subseteq> url_of ` {t \<in> set T. \<not> existsSync w (task_file t)}"
    using vs(2) ex by blast
  then have u: "\<exists>xs. fetched w'' = fetched w @ xs
                \<and> set xs \<subseteq> url_of ` {t \<in> set T. \<not> existsSync w (task_file t)}"
    using us vs(1) by (intro exI [of _ "us @ vs"]) simp
  show ?thesis
    unfolding store_step_def using d d' f u by blast
qed

lemma store_step_mono:
  assumes "store_step T w w'" and "set T \<subseteq> set T'"
  shows "store_step T' w w'"
proof -
  have i: "task_file ` set T \<subseteq> task_file ` set T'"
    using assms(2) by blast
  have j: "url_of ` {t \<in> set T. \<not> existsSync w (task_file t)}
         \<subseteq> url_of ` {t \<in> set T'. \<not> existsSync w (task_file t)}"
    using assms(2) by blast
  have k: "(\<forall>t\<in>set T'. existsSync w (task_file t)) \<Longrightarrow> (\<forall>t\<in>set T. existsSync w (task_file t))"
    using assms(2) by blast
  have 1: "dirs w \<subseteq> dirs w'" using assms(1) unfolding store_step_def by blast
  have 2: "(\<forall>t\<in>set T'. existsSync w (task_file t)) \<longrightarrow> dirs w' = dirs w"
    using assms(1) k unfolding store_step_def by blast
  have 3: "\<forall>path. files w' path = files w path
                  \<or> (\<not> existsSync w path \<and> path \<in> task_file ` set T')"
    using assms(1) i unfolding store_step_def by blast
  obtain us where us: "fetched w' = fetched w @ us"
      "set us \<subseteq> url_of ` {t \<in> set T. \<not> existsSync w (task_file t)}"
    using assms(1) unfolding store_step_def by blast
  have 4: "\<exists>us. fetched w' = fetched w @ us
                \<and> set us \<subseteq> url_of ` {t \<in> set T'. \<not> existsSync w (task_file t)}"
    using us j by blast
  show ?thesis
    unfolding store_step_def using 1 2 3 4 by blast
qed

subsection \<open>Tasks as steps\<close>

lemma task_begin_advance:
  "advance f tot (c, w) (c, snd (task_begin t w)) [Started (tile_of t)]"
  by (simp add: advance_def)

lemma task_resume_advance:
  assumes "on_fail (fst tp) = Some (f (tile_of (fst tp)))"
  shows "advance f tot s (task_resume e tot tp s)
           [Settled (tile_of (fst tp)) (task_outcome e tp (snd s))]"
  using assms by (cases s) (simp add: advance_def)

lemma task_resume_dirs:
  "dirs w \<subseteq> dirs (snd (task_resume e tot tp (c, w)))"
  by (cases tp)
     (auto simp: task_resume_def saveTile_resume_def appendFileSync_ledger_def
        mkdirSync_def writeFileSync_def
        split: prod.splits pending.splits option.splits disk_outcome.splits)

lemma task_resume_dirs_same:
  "snd tp = Resolved \<Longrightarrow> dirs (snd (task_resume e tot tp (c, w))) = dirs w"
  by (cases tp)
     (auto simp: task_resume_def saveTile_resume_def appendFileSync_ledger_def
        split: prod.splits pending.splits option.splits disk_outcome.splits)

lemma task_outcome_Resolved: "snd tp = Resolved \<Longrightarrow> task_outcome e tp w"
  by (cases tp) (auto simp: task_outcome_def split: prod.splits)

lemma task_resume_files:
  "files (snd (task_resume e tot tp (c, w))) path = files w path
   \<or> (path = task_file (fst tp) \<and> snd tp \<noteq> Resolved)"
  by (cases tp)
     (auto simp: task_resume_def saveTile_resume_def appendFileSync_ledger_def
        mkdirSync_def writeFileSync_def task_file_def
        split: prod.splits pending.splits option.splits disk_outcome.splits)

lemma task_resume_stored:
  "task_outcome e tp w \<Longrightarrow> snd tp \<noteq> Resolved
   \<Longrightarrow> existsSync (snd (task_resume e tot tp (c, w))) (task_file (fst tp))"
  by (cases tp)
     (auto simp: task_resume_def task_outcome_def saveTile_resume_def appendFileSync_ledger_def
        mkdirSync_def writeFileSync_def task_file_def existsSync_def
        split: prod.splits pending.splits option.splits disk_outcome.splits)

lemma task_resume_exists:
  "existsSync w path \<Longrightarrow> existsSync (snd (task_resume e tot tp (c, w))) path"
  by (cases tp)
     (auto simp: task_resume_def saveTile_resume_def appendFileSync_ledger_def
        mkdirSync_def writeFileSync_def existsSync_def
        split: prod.splits pending.splits option.splits disk_outcome.splits)

subsection \<open>Starting a batch\<close>

lemma start_all_Cons:
  "start_all (t # ts) w
     = ((t, fst (task_begin t w)) # fst (start_all ts (snd (task_begin t w))),
        snd (start_all ts (snd (task_begin t w))))"
  by (simp split: prod.splits)

lemma start_all_tasks [simp]: "map fst (fst (start_all ts w)) = ts"
  by (induction ts arbitrary: w) (simp_all add: start_all_Cons del: start_all.simps(2))

lemma start_all_files [simp]: "files (snd (start_all ts w)) = files w"
  by (induction ts arbitrary: w) (simp_all add: start_all_Cons del: start_all.simps(2))

lemma start_all_dirs [simp]: "dirs (snd (start_all ts w)) = dirs w"
  by (induction ts arbitrary: w) (simp_all add: start_all_Cons del: start_all.simps(2))

lemma start_all_ledger [simp]: "ledger (snd (start_all ts w)) = ledger w"
  by (induction ts arbitrary: w) (simp_all add: start_all_Cons del: start_all.simps(2))

lemma start_all_reports [simp]: "reports (snd (start_all ts w)) = reports w"
  by (induction ts arbitrary: w) (simp_all add: start_all_Cons del: start_all.simps(2))

lemma start_all_trace [simp]:
  "trace (snd (start_all ts w)) = trace w @ map Started (map tile_of ts)"
  by (induction ts arbitrary: w) (simp_all add: start_all_Cons del: start_all.simps(2))

lemma start_all_exists [simp]: "existsSync (snd (start_all ts w)) = existsSync w"
  by (rule existsSync_same) simp_all

lemma task_begin_exists [simp]: "existsSync (snd (task_begin t w)) = existsSync w"
  by (rule existsSync_same) simp_all

lemma start_all_fetched:
  "fetched (snd (start_all ts w))
     = fetched w @ map url_of (filter (\<lambda>t. \<not> existsSync w (task_file t)) ts)"
  by (induction ts arbitrary: w)
     (simp_all add: start_all_Cons task_begin_fetched del: start_all.simps(2))

lemma events_of_starts [simp]:
  "started_tiles (map (Started \<circ> g) ts) = map g ts"
  "failed_tiles (map (Started \<circ> g) ts) = []"
  "completed_count (map (Started \<circ> g) ts) = 0"
  by (induction ts) auto

lemma start_all_pending:
  "tp \<in> set (fst (start_all ts w)) \<Longrightarrow>
     fst tp \<in> set ts \<and> (snd tp = Resolved) = existsSync w (task_file (fst tp))"
proof (induction ts arbitrary: w)
  case Nil
  then show ?case by simp
next
  case (Cons t ts)
  from Cons.prems
  consider "tp = (t, fst (task_begin t w))"
    | "tp \<in> set (fst (start_all ts (snd (task_begin t w))))"
    by (auto simp: start_all_Cons simp del: start_all.simps(2))
  then show ?case
  proof cases
    case 1
    then show ?thesis by (simp add: task_begin_pending)
  next
    case 2
    from Cons.IH [OF 2] show ?thesis by simp
  qed
qed

lemma start_all_advance:
  "advance f tot (c, w) (c, snd (start_all ts w)) (map Started (map tile_of ts))"
  by (simp add: advance_def)

subsection \<open>Settling a batch\<close>

lemma settle_all_Nil [simp]: "settle_all e tot [] s = s"
  by (simp add: settle_all.simps)

lemma remove_nth_set:
  "i < length xs \<Longrightarrow> set (take i xs @ drop (Suc i) xs) \<subseteq> set xs"
  by (metis append_take_drop_id set_append set_drop_subset_set_drop Un_mono set_take_subset
      set_drop_subset subset_refl le_SucI le_refl)

lemma remove_nth_cover:
  "i < length xs \<Longrightarrow> set xs = insert (xs ! i) (set (take i xs @ drop (Suc i) xs))"
proof -
  assume "i < length xs"
  then have "xs = take i xs @ xs ! i # drop (Suc i) xs"
    by (rule id_take_nth_drop)
  then have "set xs = set (take i xs @ xs ! i # drop (Suc i) xs)"
    by simp
  then show ?thesis by simp
qed

lemma remove_nth_mset:
  "i < length xs \<Longrightarrow> mset (map g xs) = add_mset (g (xs ! i)) (mset (map g (take i xs @ drop (Suc i) xs)))"
proof -
  assume "i < length xs"
  then have "xs = take i xs @ xs ! i # drop (Suc i) xs"
    by (rule id_take_nth_drop)
  then have "mset (map g xs) = mset (map g (take i xs @ xs ! i # drop (Suc i) xs))"
    by simp
  then show ?thesis by simp
qed

lemma settles_Nil [simp]: "settles [] []"
  by (simp add: settles_def)

lemma settles_length: "settles b ss \<Longrightarrow> length ss = length b"
  unfolding settles_def by (metis length_map size_mset)

lemma settle_all_advance:
  assumes "\<forall>tp\<in>set inflight. on_fail (fst tp) = Some (f (tile_of (fst tp)))"
  shows "\<exists>ss. advance f tot s (settle_all e tot inflight s) ss
              \<and> settles (map (\<lambda>tp. tile_of (fst tp)) inflight) ss
              \<and> ((\<forall>tp\<in>set inflight. snd tp = Resolved) \<longrightarrow> failed_tiles ss = [])"
  using assms
proof (induction e tot inflight s rule: settle_all.induct)
  case (1 e tot inflight s)
  show ?case
  proof (cases "inflight = []")
    case True
    then show ?thesis by (auto intro!: exI [of _ "[]"] simp: advance_refl)
  next
    case False
    define i where "i = pick e (length (trace (snd s))) mod length inflight"
    define rest where "rest = take i inflight @ drop (Suc i) inflight"
    define s1 where "s1 = task_resume e tot (inflight ! i) s"
    have i: "i < length inflight" using False by (simp add: i_def)
    have step: "settle_all e tot inflight s = settle_all e tot rest s1"
      using False by (subst settle_all.simps) (simp add: i_def rest_def s1_def)
    have sub: "set rest \<subseteq> set inflight"
      unfolding rest_def using i by (rule remove_nth_set)
    have mem: "inflight ! i \<in> set inflight" using i by simp
    have a1: "advance f tot s s1 [Settled (tile_of (fst (inflight ! i)))
                                    (task_outcome e (inflight ! i) (snd s))]"
      unfolding s1_def using "1.prems" mem by (intro task_resume_advance) blast
    have "\<exists>ss. advance f tot s1 (settle_all e tot rest s1) ss
              \<and> settles (map (\<lambda>tp. tile_of (fst tp)) rest) ss
              \<and> ((\<forall>tp\<in>set rest. snd tp = Resolved) \<longrightarrow> failed_tiles ss = [])"
      using "1.IH" [OF False] "1.prems" sub
      unfolding i_def [symmetric] rest_def [symmetric] s1_def [symmetric] by blast
    then obtain ss where ss: "advance f tot s1 (settle_all e tot rest s1) ss"
        "settles (map (\<lambda>tp. tile_of (fst tp)) rest) ss"
        "(\<forall>tp\<in>set rest. snd tp = Resolved) \<longrightarrow> failed_tiles ss = []"
      by blast
    let ?ev = "Settled (tile_of (fst (inflight ! i))) (task_outcome e (inflight ! i) (snd s))"
    have a2: "advance f tot s (settle_all e tot inflight s) ([?ev] @ ss)"
      unfolding step using a1 ss(1) by (rule advance_trans)
    have m: "mset (map (\<lambda>tp. tile_of (fst tp)) inflight)
           = add_mset ((\<lambda>tp. tile_of (fst tp)) (inflight ! i)) (mset (map (\<lambda>tp. tile_of (fst tp)) rest))"
      unfolding rest_def using i by (rule remove_nth_mset)
    have st: "settles (map (\<lambda>tp. tile_of (fst tp)) inflight) (?ev # ss)"
      using ss(2) m by (simp add: settles_def)
    have nf: "(\<forall>tp\<in>set inflight. snd tp = Resolved) \<longrightarrow> failed_tiles (?ev # ss) = []"
      using ss(3) sub mem task_outcome_Resolved [of "inflight ! i" e "snd s"] by auto
    show ?thesis using a2 st nf by (intro exI [of _ "?ev # ss"]) simp
  qed
qed

lemma settle_all_store:
  "dirs (snd s) \<subseteq> dirs (snd (settle_all e tot inflight s))
   \<and> ((\<forall>tp\<in>set inflight. snd tp = Resolved) \<longrightarrow> dirs (snd (settle_all e tot inflight s)) = dirs (snd s))
   \<and> fetched (snd (settle_all e tot inflight s)) = fetched (snd s)
   \<and> (\<forall>path. files (snd (settle_all e tot inflight s)) path = files (snd s) path
              \<or> path \<in> task_file ` fst ` {tp \<in> set inflight. snd tp \<noteq> Resolved})
   \<and> (\<forall>path. existsSync (snd s) path \<longrightarrow> existsSync (snd (settle_all e tot inflight s)) path)"
proof (induction e tot inflight s rule: settle_all.induct)
  case (1 e tot inflight s)
  show ?case
  proof (cases "inflight = []")
    case True
    then show ?thesis by simp
  next
    case False
    define i where "i = pick e (length (trace (snd s))) mod length inflight"
    define rest where "rest = take i inflight @ drop (Suc i) inflight"
    define s1 where "s1 = task_resume e tot (inflight ! i) s"
    define s2 where "s2 = settle_all e tot rest s1"
    have i: "i < length inflight" using False by (simp add: i_def)
    have step: "settle_all e tot inflight s = s2"
      using False by (subst settle_all.simps) (simp add: i_def rest_def s1_def s2_def)
    have sub: "set rest \<subseteq> set inflight"
      unfolding rest_def using i by (rule remove_nth_set)
    have mem: "inflight ! i \<in> set inflight" using i by simp
    have ih: "dirs (snd s1) \<subseteq> dirs (snd s2)" "fetched (snd s2) = fetched (snd s1)"
      "(\<forall>tp\<in>set rest. snd tp = Resolved) \<longrightarrow> dirs (snd s2) = dirs (snd s1)"
      "\<And>path. files (snd s2) path = files (snd s1) path
              \<or> path \<in> task_file ` fst ` {tp \<in> set rest. snd tp \<noteq> Resolved}"
      "\<And>path. existsSync (snd s1) path \<Longrightarrow> existsSync (snd s2) path"
      using "1.IH" [OF False]
      unfolding i_def [symmetric] rest_def [symmetric] s1_def [symmetric] s2_def [symmetric]
      by blast+
    obtain c w where s: "s = (c, w)" by (cases s)
    have d1: "dirs (snd s) \<subseteq> dirs (snd s1)"
      unfolding s1_def s by (simp add: task_resume_dirs)
    have f1: "fetched (snd s1) = fetched (snd s)"
      unfolding s1_def s by simp
    have p1: "\<And>path. files (snd s1) path = files (snd s) path
              \<or> (path = task_file (fst (inflight ! i)) \<and> snd (inflight ! i) \<noteq> Resolved)"
      unfolding s1_def s using task_resume_files by simp
    have e1: "\<And>path. existsSync (snd s) path \<Longrightarrow> existsSync (snd s1) path"
      unfolding s1_def s by (simp add: task_resume_exists)
    have files: "\<forall>path. files (snd s2) path = files (snd s) path
              \<or> path \<in> task_file ` fst ` {tp \<in> set inflight. snd tp \<noteq> Resolved}"
    proof
      fix path
      let ?A = "task_file ` fst ` {tp \<in> set inflight. snd tp \<noteq> Resolved}"
      have r: "task_file ` fst ` {tp \<in> set rest. snd tp \<noteq> Resolved} \<subseteq> ?A"
        using sub by blast
      have m: "snd (inflight ! i) \<noteq> Resolved \<Longrightarrow> task_file (fst (inflight ! i)) \<in> ?A"
        using mem by blast
      from ih(4) [of path] p1 [of path] r m
      show "files (snd s2) path = files (snd s) path \<or> path \<in> ?A"
        by (elim disjE conjE) (simp_all add: subsetD)
    qed
    have ds: "(\<forall>tp\<in>set inflight. snd tp = Resolved) \<longrightarrow> dirs (snd s2) = dirs (snd s)"
      using ih(3) sub mem task_resume_dirs_same [of "inflight ! i" e tot c w]
      unfolding s1_def s by auto
    show ?thesis
      unfolding step using d1 ih(1) ds f1 ih(2) files e1 ih(5) by auto
  qed
qed

lemma settle_all_complete:
  assumes "\<forall>tp\<in>set inflight. snd tp = Resolved \<longrightarrow> existsSync (snd s) (task_file (fst tp))"
  shows "\<exists>ss. trace (snd (settle_all e tot inflight s)) = trace (snd s) @ ss
          \<and> (\<forall>tp\<in>set inflight.
                 existsSync (snd (settle_all e tot inflight s)) (task_file (fst tp))
                 \<or> tile_of (fst tp) \<in> set (failed_tiles ss))"
  using assms
proof (induction e tot inflight s rule: settle_all.induct)
  case (1 e tot inflight s)
  show ?case
  proof (cases "inflight = []")
    case True
    then show ?thesis by simp
  next
    case False
    define i where "i = pick e (length (trace (snd s))) mod length inflight"
    define rest where "rest = take i inflight @ drop (Suc i) inflight"
    define s1 where "s1 = task_resume e tot (inflight ! i) s"
    define s2 where "s2 = settle_all e tot rest s1"
    have i: "i < length inflight" using False by (simp add: i_def)
    have step: "settle_all e tot inflight s = s2"
      using False by (subst settle_all.simps) (simp add: i_def rest_def s1_def s2_def)
    have sub: "set rest \<subseteq> set inflight"
      unfolding rest_def using i by (rule remove_nth_set)
    have cover: "set inflight = insert (inflight ! i) (set rest)"
      unfolding rest_def using i by (rule remove_nth_cover)
    obtain c w where s: "s = (c, w)" by (cases s)
    have e1: "\<And>path. existsSync (snd s) path \<Longrightarrow> existsSync (snd s1) path"
      unfolding s1_def s by (simp add: task_resume_exists)
    have e2: "\<And>path. existsSync (snd s1) path \<Longrightarrow> existsSync (snd s2) path"
      unfolding s2_def using settle_all_store [of s1 e tot rest] by blast
    let ?ok = "task_outcome e (inflight ! i) (snd s)"
    let ?ev = "Settled (tile_of (fst (inflight ! i))) ?ok"
    have t1: "trace (snd s1) = trace (snd s) @ [?ev]"
      unfolding s1_def s by simp
    have pre: "\<forall>tp\<in>set rest. snd tp = Resolved \<longrightarrow> existsSync (snd s1) (task_file (fst tp))"
      using "1.prems" sub e1 by blast
    have "\<exists>ss. trace (snd s2) = trace (snd s1) @ ss
          \<and> (\<forall>tp\<in>set rest. existsSync (snd s2) (task_file (fst tp))
                 \<or> tile_of (fst tp) \<in> set (failed_tiles ss))"
      using "1.IH" [OF False] pre
      unfolding i_def [symmetric] rest_def [symmetric] s1_def [symmetric] s2_def [symmetric]
      by blast
    then obtain ss where ss: "trace (snd s2) = trace (snd s1) @ ss"
      "\<forall>tp\<in>set rest. existsSync (snd s2) (task_file (fst tp))
                 \<or> tile_of (fst tp) \<in> set (failed_tiles ss)"
      by blast
    have tr: "trace (snd s2) = trace (snd s) @ (?ev # ss)"
      using ss(1) t1 by simp
    have this_one: "existsSync (snd s2) (task_file (fst (inflight ! i)))
                 \<or> tile_of (fst (inflight ! i)) \<in> set (failed_tiles (?ev # ss))"
    proof (cases ?ok)
      case False
      then show ?thesis by simp
    next
      case True
      have "existsSync (snd s1) (task_file (fst (inflight ! i)))"
      proof (cases "snd (inflight ! i) = Resolved")
        case True
        then show ?thesis using "1.prems" i e1 by simp
      next
        case False
        then show ?thesis
          unfolding s1_def s using True task_resume_stored [of e "inflight ! i" w tot c]
          by (simp add: s)
      qed
      then show ?thesis using e2 by blast
    qed
    have others: "\<forall>tp\<in>set rest. existsSync (snd s2) (task_file (fst tp))
                 \<or> tile_of (fst tp) \<in> set (failed_tiles (?ev # ss))"
      using ss(2) by auto
    show ?thesis
      unfolding step cover using tr this_one others
      by (intro exI [of _ "?ev # ss"]) simp
  qed
qed

subsection \<open>One batch\<close>

lemma run_batch_eq:
  "run_batch e tot b (c, w) = settle_all e tot (fst (start_all b w)) (c, snd (start_all b w))"
  by (simp add: run_batch_def split: prod.splits)

lemma run_batch_summary:
  assumes "\<forall>t\<in>set b. on_fail t = Some (f (tile_of t))"
  shows "\<exists>ss. advance f tot s (run_batch e tot b s) (map Started (map tile_of b) @ ss)
          \<and> settles (map tile_of b) ss
          \<and> (\<forall>t\<in>set b. existsSync (snd (run_batch e tot b s)) (task_file t)
                          \<or> tile_of t \<in> set (failed_tiles ss))
          \<and> ((\<forall>t\<in>set b. existsSync (snd s) (task_file t)) \<longrightarrow> failed_tiles ss = [])"
proof -
  obtain c w where s: "s = (c, w)" by (cases s)
  define inflight where "inflight = fst (start_all b w)"
  define s1 where "s1 = (c, snd (start_all b w))"
  have rb: "run_batch e tot b s = settle_all e tot inflight s1"
    by (simp add: s run_batch_eq inflight_def s1_def)
  have fstin: "map fst inflight = b"
    by (simp add: inflight_def)
  have tasks: "\<And>tp. tp \<in> set inflight \<Longrightarrow> fst tp \<in> set b"
    unfolding inflight_def using start_all_pending by blast
  have tiles: "map (\<lambda>tp. tile_of (fst tp)) inflight = map tile_of b"
    using fstin by (metis (no_types, lifting) map_map comp_apply map_eq_conv)
  have a0: "advance f tot s s1 (map Started (map tile_of b))"
    unfolding s s1_def by (rule start_all_advance)
  have "\<forall>tp\<in>set inflight. on_fail (fst tp) = Some (f (tile_of (fst tp)))"
    using assms tasks by blast
  then obtain ss where ss: "advance f tot s1 (settle_all e tot inflight s1) ss"
      "settles (map (\<lambda>tp. tile_of (fst tp)) inflight) ss"
      "(\<forall>tp\<in>set inflight. snd tp = Resolved) \<longrightarrow> failed_tiles ss = []"
    using settle_all_advance by blast
  have nf: "(\<forall>t\<in>set b. existsSync (snd s) (task_file t)) \<longrightarrow> failed_tiles ss = []"
    using ss(3) start_all_pending [of _ b w] unfolding inflight_def s by simp
  have a: "advance f tot s (run_batch e tot b s) (map Started (map tile_of b) @ ss)"
    unfolding rb using a0 ss(1) by (rule advance_trans)
  have "\<forall>tp\<in>set inflight. snd tp = Resolved \<longrightarrow> existsSync (snd s1) (task_file (fst tp))"
    unfolding inflight_def s1_def using start_all_pending by simp
  then obtain ss' where ss': "trace (snd (settle_all e tot inflight s1)) = trace (snd s1) @ ss'"
      "\<forall>tp\<in>set inflight. existsSync (snd (settle_all e tot inflight s1)) (task_file (fst tp))
                 \<or> tile_of (fst tp) \<in> set (failed_tiles ss')"
    using settle_all_complete by blast
  have "trace (snd (settle_all e tot inflight s1)) = trace (snd s1) @ ss"
    using ss(1) by (simp add: advance_def)
  then have same: "ss' = ss" using ss'(1) by simp
  have "set b = fst ` set inflight"
    using fstin by (metis set_map)
  then have fin: "\<forall>t\<in>set b. existsSync (snd (run_batch e tot b s)) (task_file t)
                          \<or> tile_of t \<in> set (failed_tiles ss)"
    unfolding rb using ss'(2) same by auto
  show ?thesis
    using a ss(2) fin nf unfolding tiles by blast
qed

lemma run_batch_store: "store_step b (snd s) (snd (run_batch e tot b s))"
proof -
  obtain c w where s: "s = (c, w)" by (cases s)
  define inflight where "inflight = fst (start_all b w)"
  define s1 where "s1 = (c, snd (start_all b w))"
  define s2 where "s2 = settle_all e tot inflight s1"
  have rb: "run_batch e tot b s = s2"
    by (simp add: s run_batch_eq inflight_def s1_def s2_def)
  have st: "dirs (snd s1) \<subseteq> dirs (snd s2)" "fetched (snd s2) = fetched (snd s1)"
    "(\<forall>tp\<in>set inflight. snd tp = Resolved) \<longrightarrow> dirs (snd s2) = dirs (snd s1)"
    "\<And>path. files (snd s2) path = files (snd s1) path
              \<or> path \<in> task_file ` fst ` {tp \<in> set inflight. snd tp \<noteq> Resolved}"
    unfolding s2_def using settle_all_store [of s1 e tot inflight] by blast+
  have d: "dirs w \<subseteq> dirs (snd s2)"
    using st(1) by (simp add: s1_def)
  have pend: "task_file ` fst ` {tp \<in> set inflight. snd tp \<noteq> Resolved}
        \<subseteq> {path. \<not> existsSync w path \<and> path \<in> task_file ` set b}"
    unfolding inflight_def using start_all_pending by blast
  have f: "\<forall>path. files (snd s2) path = files w path
                  \<or> (\<not> existsSync w path \<and> path \<in> task_file ` set b)"
  proof
    fix path
    from st(4) [of path] pend
    show "files (snd s2) path = files w path
                  \<or> (\<not> existsSync w path \<and> path \<in> task_file ` set b)"
      by (auto simp: s1_def)
  qed
  have "fetched (snd s2) = fetched w @ map url_of (filter (\<lambda>t. \<not> existsSync w (task_file t)) b)"
    using st(2) by (simp add: s1_def start_all_fetched)
  moreover have "set (map url_of (filter (\<lambda>t. \<not> existsSync w (task_file t)) b))
        \<subseteq> url_of ` {t \<in> set b. \<not> existsSync w (task_file t)}"
    by auto
  ultimately have u: "\<exists>us. fetched (snd s2) = fetched w @ us
                \<and> set us \<subseteq> url_of ` {t \<in> set b. \<not> existsSync w (task_file t)}"
    by blast
  have d': "(\<forall>t\<in>set b. existsSync w (task_file t)) \<longrightarrow> dirs (snd s2) = dirs w"
    using st(3) start_all_pending [of _ b w] unfolding inflight_def s1_def by simp
  have "store_step b w (snd s2)"
    unfolding store_step_def using d d' f u by simp
  then show ?thesis
    unfolding rb by (simp add: s)
qed

subsection \<open>Traces with a barrier\<close>

lemma barrier_trace_Cons:
  assumes "settles b ss" and "barrier_trace bs es"
  shows "barrier_trace (b # bs) (map Started b @ ss @ es)"
proof -
  have l: "length ss = length b" using assms(1) by (rule settles_length)
  have "drop (2 * length b) (map Started b @ ss @ es) = es"
    using l by simp
  then show ?thesis using assms l by simp
qed

lemma settled_counts:
  "list_all is_settled ss \<Longrightarrow> completed_count ss + length (failed_tiles ss) = length ss"
  by (induction ss rule: completed_count.induct) auto

lemma barrier_trace_split:
  assumes "barrier_trace (b # bs) es"
  shows "\<exists>ss es'. es = map Started b @ ss @ es' \<and> settles b ss \<and> barrier_trace bs es'"
proof -
  let ?n = "length b"
  let ?ss = "take ?n (drop ?n es)"
  let ?es' = "drop (2 * ?n) es"
  have 1: "take ?n es = map Started b" and 2: "settles b ?ss" and 3: "barrier_trace bs ?es'"
    using assms by simp_all
  have "es = take ?n es @ (?ss @ ?es')"
    by (metis append_take_drop_id drop_drop mult_2)
  then have "es = map Started b @ ?ss @ ?es'" using 1 by simp
  then show ?thesis using 2 3 by blast
qed

lemma barrier_trace_started:
  "barrier_trace bs es \<Longrightarrow> started_tiles es = concat bs"
proof (induction bs arbitrary: es)
  case Nil
  then show ?case by simp
next
  case (Cons b bs)
  then obtain ss es' where e: "es = map Started b @ ss @ es'" "settles b ss" "barrier_trace bs es'"
    using barrier_trace_split by blast
  have "started_tiles ss = []" using e(2) by (simp add: settles_def)
  then show ?case using e Cons.IH [of es'] by simp
qed

lemma barrier_trace_counts:
  "barrier_trace bs es \<Longrightarrow> completed_count es + length (failed_tiles es) = length (concat bs)"
proof (induction bs arbitrary: es)
  case Nil
  then show ?case by simp
next
  case (Cons b bs)
  then obtain ss es' where e: "es = map Started b @ ss @ es'" "settles b ss" "barrier_trace bs es'"
    using barrier_trace_split by blast
  have "completed_count ss + length (failed_tiles ss) = length b"
    using e(2) settled_counts [of ss] settles_length [of b ss] by (simp add: settles_def)
  then show ?case using e Cons.IH [of es'] by simp
qed





subsection \<open>A sequence of batches\<close>

lemma fold_batches_store:
  "store_step (concat bs) (snd s) (snd (fold (run_batch e tot) bs s))"
proof (induction bs arbitrary: s)
  case Nil
  show ?case by (simp add: store_step_refl)
next
  case (Cons b bs)
  define s1 where "s1 = run_batch e tot b s"
  have st1: "store_step (concat (b # bs)) (snd s) (snd s1)"
    unfolding s1_def using run_batch_store [of b s e tot]
    by (rule store_step_mono) simp
  have "store_step (concat bs) (snd s1) (snd (fold (run_batch e tot) bs s1))"
    by (rule Cons.IH)
  then have "store_step (concat (b # bs)) (snd s1) (snd (fold (run_batch e tot) bs s1))"
    by (rule store_step_mono) auto
  with st1 show ?case unfolding s1_def by (simp add: store_step_trans)
qed

lemma fold_batches_summary:
  assumes "\<forall>t\<in>set (concat bs). on_fail t = Some (f (tile_of t))"
  shows "\<exists>es. advance f tot s (fold (run_batch e tot) bs s) es
          \<and> barrier_trace (map (map tile_of) bs) es
          \<and> (\<forall>t\<in>set (concat bs). existsSync (snd (fold (run_batch e tot) bs s)) (task_file t)
                                   \<or> tile_of t \<in> set (failed_tiles es))
          \<and> ((\<forall>t\<in>set (concat bs). existsSync (snd s) (task_file t)) \<longrightarrow> failed_tiles es = [])"
  using assms
proof (induction bs arbitrary: s)
  case Nil
  show ?case by (auto intro!: exI [of _ "[]"] simp: advance_refl)
next
  case (Cons b bs)
  define s1 where "s1 = run_batch e tot b s"
  define s2 where "s2 = fold (run_batch e tot) bs s1"
  have step: "fold (run_batch e tot) (b # bs) s = s2"
    by (simp add: s1_def s2_def)
  have fb: "\<forall>t\<in>set b. on_fail t = Some (f (tile_of t))"
    and fbs: "\<forall>t\<in>set (concat bs). on_fail t = Some (f (tile_of t))"
    using Cons.prems by simp_all
  have "\<exists>ss. advance f tot s s1 (map Started (map tile_of b) @ ss)
          \<and> settles (map tile_of b) ss
          \<and> (\<forall>t\<in>set b. existsSync (snd s1) (task_file t)
                          \<or> tile_of t \<in> set (failed_tiles ss))
          \<and> ((\<forall>t\<in>set b. existsSync (snd s) (task_file t)) \<longrightarrow> failed_tiles ss = [])"
    unfolding s1_def by (rule run_batch_summary [OF fb])
  then obtain ss where ss: "advance f tot s s1 (map Started (map tile_of b) @ ss)"
      "settles (map tile_of b) ss"
      "\<forall>t\<in>set b. existsSync (snd s1) (task_file t) \<or> tile_of t \<in> set (failed_tiles ss)"
      "(\<forall>t\<in>set b. existsSync (snd s) (task_file t)) \<longrightarrow> failed_tiles ss = []"
    by (elim exE conjE)
  have "\<exists>es. advance f tot s1 s2 es \<and> barrier_trace (map (map tile_of) bs) es
        \<and> (\<forall>t\<in>set (concat bs). existsSync (snd s2) (task_file t)
                                   \<or> tile_of t \<in> set (failed_tiles es))
        \<and> ((\<forall>t\<in>set (concat bs). existsSync (snd s1) (task_file t)) \<longrightarrow> failed_tiles es = [])"
    unfolding s2_def by (rule Cons.IH [OF fbs])
  then obtain es where es: "advance f tot s1 s2 es" "barrier_trace (map (map tile_of) bs) es"
      "\<forall>t\<in>set (concat bs). existsSync (snd s2) (task_file t)
                                   \<or> tile_of t \<in> set (failed_tiles es)"
      "(\<forall>t\<in>set (concat bs). existsSync (snd s1) (task_file t)) \<longrightarrow> failed_tiles es = []"
    by (elim exE conjE)
  have st1: "store_step b (snd s) (snd s1)"
    unfolding s1_def by (rule run_batch_store)
  have st2: "store_step (concat bs) (snd s1) (snd s2)"
    unfolding s2_def by (rule fold_batches_store)
  let ?es = "(map Started (map tile_of b) @ ss) @ es"
  have a: "advance f tot s s2 ?es"
    using ss(1) es(1) by (rule advance_trans)
  have b: "barrier_trace (map (map tile_of) (b # bs)) ?es"
    using barrier_trace_Cons [OF ss(2) es(2)] by simp
  have c1: "\<forall>t\<in>set b. existsSync (snd s2) (task_file t) \<or> tile_of t \<in> set (failed_tiles ?es)"
    using ss(3) store_step_exists [OF st2] by auto
  have c2: "\<forall>t\<in>set (concat bs). existsSync (snd s2) (task_file t)
                                   \<or> tile_of t \<in> set (failed_tiles ?es)"
    using es(3) by auto
  have c3: "(\<forall>t\<in>set (concat (b # bs)). existsSync (snd s) (task_file t))
              \<longrightarrow> failed_tiles ?es = []"
    using ss(4) es(4) store_step_exists [OF st1] by auto
  show ?case
    unfolding step using a b c1 c2 c3 by (intro exI [of _ ?es]) auto
qed

subsection \<open>A zoom level\<close>

lemma tile_task_simps [simp]:
  "tile_of (tile_task p z lang xy) = (Num (int (fst xy)), Num (int (snd xy)), Num (int z))"
  "provider_of (tile_task p z lang xy) = name p"
  "on_fail (tile_task p z lang xy) = Some (failed_line p lang (tile_of (tile_task p z lang xy)))"
  "url_of (tile_task p z lang xy) = tile_url p (tile_of (tile_task p z lang xy))"
  "task_file (tile_task p z lang xy) = tile_file p (tile_of (tile_task p z lang xy))"
  by (simp_all add: tile_task_def tile_url_def tile_file_def task_file_def split: prod.splits)

lemma zoom_tasks_tiles [simp]: "map tile_of (zoom_tasks p z M bounds lang) = zoom_tiles z M bounds"
  by (simp add: zoom_tasks_def zoom_tiles_def)

lemma zoom_tasks_length [simp]: "length (zoom_tasks p z M bounds lang) = length (inBoundsTiles z M bounds)"
  by (simp add: zoom_tasks_def)

lemma zoom_tiles_length [simp]: "length (zoom_tiles z M bounds) = length (inBoundsTiles z M bounds)"
  by (simp add: zoom_tiles_def)

lemma zoom_tasks_fields:
  assumes "t \<in> set (zoom_tasks p z M bounds lang)"
  shows "on_fail t = Some (failed_line p lang (tile_of t))"
    and "url_of t = tile_url p (tile_of t)"
    and "task_file t = tile_file p (tile_of t)"
    and "tile_of t \<in> set (zoom_tiles z M bounds)"
  using assms by (force simp: zoom_tasks_def zoom_tiles_def)+

lemma zoom_state_fold:
  "downloadTilesForZoom_state e p z M bounds c lang w
     = fold (run_batch e (length (inBoundsTiles z M bounds)))
         (batches c [] (zoom_tasks p z M bounds lang)) (0, w)"
  by (simp add: downloadTilesForZoom_state_def dispatch_batches)

lemma zoom_batches_tiles:
  "map (map tile_of) (batches c [] (zoom_tasks p z M bounds lang)) = batches c [] (zoom_tiles z M bounds)"
  using batches_map [of c tile_of "[]" "zoom_tasks p z M bounds lang"] by simp

lemma zoom_summary:
  "\<exists>es. advance (failed_line p lang) (length (inBoundsTiles z M bounds)) (0, w)
           (downloadTilesForZoom_state e p z M bounds c lang w) es
      \<and> barrier_trace (batches c [] (zoom_tiles z M bounds)) es
      \<and> (\<forall>t\<in>set (zoom_tiles z M bounds).
            existsSync (downloadTilesForZoom e p z M bounds c lang w) (tile_file p t)
            \<or> t \<in> set (failed_tiles es))
      \<and> ((\<forall>t\<in>set (zoom_tiles z M bounds). existsSync w (tile_file p t)) \<longrightarrow> failed_tiles es = [])"
proof -
  let ?T = "zoom_tasks p z M bounds lang"
  let ?bs = "batches c [] ?T"
  let ?tot = "length (inBoundsTiles z M bounds)"
  have cc: "concat ?bs = ?T" by (simp add: concat_batches)
  have "\<forall>t\<in>set (concat ?bs). on_fail t = Some (failed_line p lang (tile_of t))"
    unfolding cc using zoom_tasks_fields(1) by blast
  then have "\<exists>es. advance (failed_line p lang) ?tot (0, w) (fold (run_batch e ?tot) ?bs (0, w)) es
    \<and> barrier_trace (map (map tile_of) ?bs) es
    \<and> (\<forall>t\<in>set (concat ?bs). existsSync (snd (fold (run_batch e ?tot) ?bs (0, w))) (task_file t)
                                   \<or> tile_of t \<in> set (failed_tiles es))
    \<and> ((\<forall>t\<in>set (concat ?bs). existsSync (snd (0, w)) (task_file t)) \<longrightarrow> failed_tiles es = [])"
    using fold_batches_summary [where f = "failed_line p lang" and bs = ?bs and s = "(0, w)" and tot = ?tot and e = e]
    by simp
  then obtain es where es:
    "advance (failed_line p lang) ?tot (0, w) (fold (run_batch e ?tot) ?bs (0, w)) es"
    "barrier_trace (map (map tile_of) ?bs) es"
    "\<forall>t\<in>set (concat ?bs). existsSync (snd (fold (run_batch e ?tot) ?bs (0, w))) (task_file t)
                                   \<or> tile_of t \<in> set (failed_tiles es)"
    "(\<forall>t\<in>set (concat ?bs). existsSync (snd (0, w)) (task_file t)) \<longrightarrow> failed_tiles es = []"
    by (elim exE conjE)
  have img: "set (zoom_tiles z M bounds) = tile_of ` set ?T"
    by (metis zoom_tasks_tiles set_map)
  have 3: "\<forall>t\<in>set (zoom_tiles z M bounds).
            existsSync (downloadTilesForZoom e p z M bounds c lang w) (tile_file p t)
            \<or> t \<in> set (failed_tiles es)"
    using es(3) zoom_tasks_fields(3) [of _ p z M bounds lang]
    unfolding cc img downloadTilesForZoom_def zoom_state_fold by auto
  have 4: "(\<forall>t\<in>set (zoom_tiles z M bounds). existsSync w (tile_file p t)) \<longrightarrow> failed_tiles es = []"
    using es(4) zoom_tasks_fields(3) [of _ p z M bounds lang]
    unfolding cc img by auto
  show ?thesis
    using es(1,2) 3 4 unfolding zoom_state_fold zoom_batches_tiles by blast
qed

lemma zoom_store:
  "store_step (zoom_tasks p z M bounds lang) w (downloadTilesForZoom e p z M bounds c lang w)"
  using fold_batches_store [of "batches c [] (zoom_tasks p z M bounds lang)" "(0, w)" e
      "length (inBoundsTiles z M bounds)"]
  by (simp add: downloadTilesForZoom_def zoom_state_fold concat_batches)

subsection \<open>The zoom levels of a run\<close>

lemma logged_refl: "logged f w w []"
  by (simp add: logged_def)

lemma advance_logged: "advance f tot s s' es \<Longrightarrow> logged f (snd s) (snd s') es"
  by (simp add: advance_def logged_def)

lemma logged_trans:
  assumes "logged f w w' es" and "logged f w' w'' es'"
  shows "logged f w w'' (es @ es')"
proof -
  have l1: "ledger w' = (if failed_tiles es = [] then ledger w
             else Some (ledger_text w @ concat (map f (failed_tiles es))))"
    using assms(1) by (simp add: logged_def)
  have l2: "ledger w'' = (if failed_tiles es' = [] then ledger w'
             else Some (ledger_text w' @ concat (map f (failed_tiles es'))))"
    using assms(2) by (simp add: logged_def)
  have lt: "ledger_text w' = ledger_text w @ concat (map f (failed_tiles es))"
    using l1 by (simp add: ledger_text_def)
  have l: "ledger w'' = (if failed_tiles (es @ es') = [] then ledger w
             else Some (ledger_text w @ concat (map f (failed_tiles (es @ es')))))"
    unfolding l2 lt using l1 by simp
  have t: "trace w'' = trace w @ es @ es'"
    using assms by (simp add: logged_def)
  show ?thesis unfolding logged_def using t l by simp
qed

lemma zoom_logged:
  "\<exists>es. logged (failed_line p lang) w (downloadTilesForZoom e p z M bounds c lang w) es
      \<and> started_tiles es = zoom_tiles z M bounds
      \<and> completed_count es + length (failed_tiles es) = length (zoom_tiles z M bounds)
      \<and> (\<forall>t\<in>set (zoom_tiles z M bounds).
            existsSync (downloadTilesForZoom e p z M bounds c lang w) (tile_file p t)
            \<or> t \<in> set (failed_tiles es))
      \<and> ((\<forall>t\<in>set (zoom_tiles z M bounds). existsSync w (tile_file p t)) \<longrightarrow> failed_tiles es = [])"
proof -
  obtain es where es:
    "advance (failed_line p lang) (length (inBoundsTiles z M bounds)) (0, w)
           (downloadTilesForZoom_state e p z M bounds c lang w) es"
    "barrier_trace (batches c [] (zoom_tiles z M bounds)) es"
    "\<forall>t\<in>set (zoom_tiles z M bounds).
            existsSync (downloadTilesForZoom e p z M bounds c lang w) (tile_file p t)
            \<or> t \<in> set (failed_tiles es)"
    "(\<forall>t\<in>set (zoom_tiles z M bounds). existsSync w (tile_file p t)) \<longrightarrow> failed_tiles es = []"
    using zoom_summary [of p lang z M bounds w e c] by blast
  have 1: "logged (failed_line p lang) w (downloadTilesForZoom e p z M bounds c lang w) es"
    using advance_logged [OF es(1)] by (simp add: downloadTilesForZoom_def)
  have 2: "started_tiles es = zoom_tiles z M bounds"
    using barrier_trace_started [OF es(2)] by (simp add: concat_batches)
  have 3: "completed_count es + length (failed_tiles es) = length (zoom_tiles z M bounds)"
    using barrier_trace_counts [OF es(2)] by (simp add: concat_batches)
  show ?thesis using 1 2 3 es(3,4) by blast
qed

lemma levels_store:
  "store_step (concat (map (\<lambda>z. zoom_tasks p z M bounds lang) zl)) w
     (fold (\<lambda>z. downloadTilesForZoom e p z M bounds c lang) zl w)"
proof (induction zl arbitrary: w)
  case Nil
  show ?case by (simp add: store_step_refl)
next
  case (Cons z zl)
  let ?T = "concat (map (\<lambda>z. zoom_tasks p z M bounds lang) (z # zl))"
  define w1 where "w1 = downloadTilesForZoom e p z M bounds c lang w"
  have 1: "store_step ?T w w1"
    unfolding w1_def using zoom_store [of p z M bounds lang w e c]
    by (rule store_step_mono) simp
  have "store_step (concat (map (\<lambda>z. zoom_tasks p z M bounds lang) zl)) w1
     (fold (\<lambda>z. downloadTilesForZoom e p z M bounds c lang) zl w1)"
    by (rule Cons.IH)
  then have 2: "store_step ?T w1 (fold (\<lambda>z. downloadTilesForZoom e p z M bounds c lang) zl w1)"
    by (rule store_step_mono) auto
  show ?case using store_step_trans [OF 1 2] by (simp add: w1_def)
qed

lemma levels_logged:
  "\<exists>es. logged (failed_line p lang) w (fold (\<lambda>z. downloadTilesForZoom e p z M bounds c lang) zl w) es
      \<and> started_tiles es = concat (map (\<lambda>z. zoom_tiles z M bounds) zl)
      \<and> completed_count es + length (failed_tiles es)
          = length (concat (map (\<lambda>z. zoom_tiles z M bounds) zl))
      \<and> (\<forall>t\<in>set (concat (map (\<lambda>z. zoom_tiles z M bounds) zl)).
            existsSync (fold (\<lambda>z. downloadTilesForZoom e p z M bounds c lang) zl w) (tile_file p t)
            \<or> t \<in> set (failed_tiles es))
      \<and> ((\<forall>t\<in>set (concat (map (\<lambda>z. zoom_tiles z M bounds) zl)). existsSync w (tile_file p t))
           \<longrightarrow> failed_tiles es = [])"
proof (induction zl arbitrary: w)
  case Nil
  show ?case by (auto intro!: exI [of _ "[]"] simp: logged_refl)
next
  case (Cons z zl)
  define w1 where "w1 = downloadTilesForZoom e p z M bounds c lang w"
  define w2 where "w2 = fold (\<lambda>z. downloadTilesForZoom e p z M bounds c lang) zl w1"
  let ?rest = "concat (map (\<lambda>z. zoom_tiles z M bounds) zl)"
  have step: "fold (\<lambda>z. downloadTilesForZoom e p z M bounds c lang) (z # zl) w = w2"
    by (simp add: w1_def w2_def)
  obtain es1 where es1: "logged (failed_line p lang) w w1 es1"
      "started_tiles es1 = zoom_tiles z M bounds"
      "completed_count es1 + length (failed_tiles es1) = length (zoom_tiles z M bounds)"
      "\<forall>t\<in>set (zoom_tiles z M bounds). existsSync w1 (tile_file p t) \<or> t \<in> set (failed_tiles es1)"
      "(\<forall>t\<in>set (zoom_tiles z M bounds). existsSync w (tile_file p t)) \<longrightarrow> failed_tiles es1 = []"
    unfolding w1_def using zoom_logged [of p lang w e z M bounds c] by blast
  obtain es2 where es2: "logged (failed_line p lang) w1 w2 es2"
      "started_tiles es2 = ?rest"
      "completed_count es2 + length (failed_tiles es2) = length ?rest"
      "\<forall>t\<in>set ?rest. existsSync w2 (tile_file p t) \<or> t \<in> set (failed_tiles es2)"
      "(\<forall>t\<in>set ?rest. existsSync w1 (tile_file p t)) \<longrightarrow> failed_tiles es2 = []"
    unfolding w2_def using Cons.IH [of w1] by blast
  have m1: "\<And>path. existsSync w path \<Longrightarrow> existsSync w1 path"
    unfolding w1_def using store_step_exists [OF zoom_store] by blast
  have m2: "\<And>path. existsSync w1 path \<Longrightarrow> existsSync w2 path"
    unfolding w2_def using store_step_exists [OF levels_store] by blast
  have a: "logged (failed_line p lang) w w2 (es1 @ es2)"
    using es1(1) es2(1) by (rule logged_trans)
  have b: "started_tiles (es1 @ es2) = concat (map (\<lambda>z. zoom_tiles z M bounds) (z # zl))"
    using es1(2) es2(2) by simp
  have c: "completed_count (es1 @ es2) + length (failed_tiles (es1 @ es2))
          = length (concat (map (\<lambda>z. zoom_tiles z M bounds) (z # zl)))"
    using es1(3) es2(3) by simp
  have d: "\<forall>t\<in>set (concat (map (\<lambda>z. zoom_tiles z M bounds) (z # zl))).
            existsSync w2 (tile_file p t) \<or> t \<in> set (failed_tiles (es1 @ es2))"
    using es1(4) es2(4) m2 by auto
  have e: "(\<forall>t\<in>set (concat (map (\<lambda>z. zoom_tiles z M bounds) (z # zl))). existsSync w (tile_file p t))
           \<longrightarrow> failed_tiles (es1 @ es2) = []"
    using es1(5) es2(5) m1 by auto
  show ?case
    unfolding step using a b c d e by blast
qed

subsection \<open>Concrete tile lists\<close>

lemma new_events_append: "trace w' = trace w @ es \<Longrightarrow> new_events w w' = es"
  by (simp add: new_events_def)


lemma new_fetches_append: "fetched w' = fetched w @ us \<Longrightarrow> new_fetches w w' = us"
  by (simp add: new_fetches_def)

lemma inBoundsTiles_0: "inBoundsTiles 0 M None = [(0, 0)]"
  by (simp add: inBoundsTiles_def)




section \<open>Claims about the acquisition run\<close>



subsection \<open>Progress of a zoom level\<close>

lemma zoom_state_0:
  "downloadTilesForZoom_state e p 0 M None c lang w
     = dispatch e 1 c [] [tile_task p 0 lang (0, 0)] (0, w)"
  by (simp add: downloadTilesForZoom_state_def zoom_tasks_def inBoundsTiles_0)







subsection \<open>The zoom levels as one stretch\<close>

lemma levels_run:
  "\<exists>es. logged (failed_line p lang) w (downloadZoomLevels e p zs ze M bounds c lang w) es
      \<and> started_tiles es = run_tiles zs ze M bounds
      \<and> completed_count es + length (failed_tiles es) = length (run_tiles zs ze M bounds)
      \<and> (\<forall>t\<in>set (run_tiles zs ze M bounds).
            existsSync (downloadZoomLevels e p zs ze M bounds c lang w) (tile_file p t)
            \<or> t \<in> set (failed_tiles es))
      \<and> ((\<forall>t\<in>set (run_tiles zs ze M bounds). existsSync w (tile_file p t))
           \<longrightarrow> failed_tiles es = [])"
  unfolding downloadZoomLevels_def run_tiles_def by (rule levels_logged)

subsection \<open>The store across runs\<close>

lemma store_step_keeps:
  "store_step T w w' \<Longrightarrow> files w path = Some content \<Longrightarrow> files w' path = Some content"
  unfolding store_step_def existsSync_def by (metis option.distinct(1))

lemma store_step_fetches:
  assumes "store_step T w w'"
  shows "set (new_fetches w w') \<subseteq> url_of ` {t \<in> set T. \<not> existsSync w (task_file t)}"
proof -
  obtain us where us: "fetched w' = fetched w @ us"
      "set us \<subseteq> url_of ` {t \<in> set T. \<not> existsSync w (task_file t)}"
    using assms unfolding store_step_def by blast
  show ?thesis using us(2) new_fetches_append [OF us(1)] by simp
qed

lemma store_step_idle:
  assumes "store_step T w w'" and "\<forall>t\<in>set T. existsSync w (task_file t)"
  shows "new_fetches w w' = [] \<and> files w' = files w \<and> dirs w' = dirs w"
proof -
  have "set (new_fetches w w') \<subseteq> {}"
    using store_step_fetches [OF assms(1)] assms(2) by blast
  then have 1: "new_fetches w w' = []" by simp
  have "\<And>path. files w' path = files w path"
    using assms unfolding store_step_def by blast
  then have 2: "files w' = files w" by (simp add: fun_eq_iff)
  have 3: "dirs w' = dirs w"
    using assms unfolding store_step_def by blast
  show ?thesis using 1 2 3 by blast
qed

lemma levels_tasks_tiles:
  assumes "t \<in> set (concat (map (\<lambda>z. zoom_tasks p z M bounds lang) zl))"
  shows "url_of t = tile_url p (tile_of t)" and "task_file t = tile_file p (tile_of t)"
    and "tile_of t \<in> set (concat (map (\<lambda>z. zoom_tiles z M bounds) zl))"
proof -
  obtain z where z: "z \<in> set zl" "t \<in> set (zoom_tasks p z M bounds lang)"
    using assms by auto
  show "url_of t = tile_url p (tile_of t)" using zoom_tasks_fields(2) [OF z(2)] .
  show "task_file t = tile_file p (tile_of t)" using zoom_tasks_fields(3) [OF z(2)] .
  show "tile_of t \<in> set (concat (map (\<lambda>z. zoom_tiles z M bounds) zl))"
    using zoom_tasks_fields(4) [OF z(2)] z(1) by auto
qed

lemma run_tasks_tiles:
  assumes "t \<in> set (concat (map (\<lambda>z. zoom_tasks p z M bounds lang) [zs..<Suc ze]))"
  shows "url_of t = tile_url p (tile_of t)" and "task_file t = tile_file p (tile_of t)"
    and "tile_of t \<in> set (run_tiles zs ze M bounds)"
  unfolding run_tiles_def using levels_tasks_tiles [OF assms] by blast+

lemma run_store:
  "store_step (concat (map (\<lambda>z. zoom_tasks p z M bounds lang) [zs..<Suc ze])) w
     (downloadZoomLevels e p zs ze M bounds c lang w)"
  unfolding downloadZoomLevels_def by (rule levels_store)

lemma run_store_tiles:
  "(\<forall>path content. files w path = Some content
      \<longrightarrow> files (downloadZoomLevels e p zs ze M bounds c lang w) path = Some content)
   \<and> dirs w \<subseteq> dirs (downloadZoomLevels e p zs ze M bounds c lang w)
   \<and> set (new_fetches w (downloadZoomLevels e p zs ze M bounds c lang w))
       \<subseteq> tile_url p ` {t \<in> set (run_tiles zs ze M bounds). \<not> existsSync w (tile_file p t)}
   \<and> (\<forall>path. files (downloadZoomLevels e p zs ze M bounds c lang w) path \<noteq> files w path
         \<longrightarrow> \<not> existsSync w path \<and> path \<in> tile_file p ` set (run_tiles zs ze M bounds))
   \<and> ((\<forall>t\<in>set (run_tiles zs ze M bounds). existsSync w (tile_file p t))
        \<longrightarrow> new_fetches w (downloadZoomLevels e p zs ze M bounds c lang w) = []
            \<and> files (downloadZoomLevels e p zs ze M bounds c lang w) = files w
            \<and> dirs (downloadZoomLevels e p zs ze M bounds c lang w) = dirs w)"
proof -
  let ?T = "concat (map (\<lambda>z. zoom_tasks p z M bounds lang) [zs..<Suc ze])"
  let ?w' = "downloadZoomLevels e p zs ze M bounds c lang w"
  have st: "store_step ?T w ?w'" by (rule run_store)
  have 1: "\<forall>path content. files w path = Some content \<longrightarrow> files ?w' path = Some content"
    using store_step_keeps [OF st] by blast
  have 2: "dirs w \<subseteq> dirs ?w'"
    using st unfolding store_step_def by blast
  have "url_of ` {t \<in> set ?T. \<not> existsSync w (task_file t)}
      \<subseteq> tile_url p ` {t \<in> set (run_tiles zs ze M bounds). \<not> existsSync w (tile_file p t)}"
  proof
    fix u assume "u \<in> url_of ` {t \<in> set ?T. \<not> existsSync w (task_file t)}"
    then obtain t where t: "t \<in> set ?T" "\<not> existsSync w (task_file t)" "u = url_of t"
      by blast
    have "tile_of t \<in> {t \<in> set (run_tiles zs ze M bounds). \<not> existsSync w (tile_file p t)}"
      using run_tasks_tiles(2,3) [OF t(1)] t(2) by simp
    then show "u \<in> tile_url p ` {t \<in> set (run_tiles zs ze M bounds). \<not> existsSync w (tile_file p t)}"
      using run_tasks_tiles(1) [OF t(1)] t(3) by blast
  qed
  then have 3: "set (new_fetches w ?w')
       \<subseteq> tile_url p ` {t \<in> set (run_tiles zs ze M bounds). \<not> existsSync w (tile_file p t)}"
    using store_step_fetches [OF st] by blast
  have img: "task_file ` set ?T \<subseteq> tile_file p ` set (run_tiles zs ze M bounds)"
  proof
    fix path assume "path \<in> task_file ` set ?T"
    then obtain t where t: "t \<in> set ?T" "path = task_file t" by blast
    show "path \<in> tile_file p ` set (run_tiles zs ze M bounds)"
      using run_tasks_tiles(2,3) [OF t(1)] t(2) by simp
  qed
  have 4: "\<forall>path. files ?w' path \<noteq> files w path
         \<longrightarrow> \<not> existsSync w path \<and> path \<in> tile_file p ` set (run_tiles zs ze M bounds)"
    using st img unfolding store_step_def by blast
  have 5: "(\<forall>t\<in>set (run_tiles zs ze M bounds). existsSync w (tile_file p t))
        \<longrightarrow> new_fetches w ?w' = [] \<and> files ?w' = files w \<and> dirs ?w' = dirs w"
  proof
    assume a: "\<forall>t\<in>set (run_tiles zs ze M bounds). existsSync w (tile_file p t)"
    have "\<forall>t\<in>set ?T. existsSync w (task_file t)"
    proof
      fix t assume t: "t \<in> set ?T"
      show "existsSync w (task_file t)"
        using a run_tasks_tiles(2,3) [OF t] by simp
    qed
    then show "new_fetches w ?w' = [] \<and> files ?w' = files w \<and> dirs ?w' = dirs w"
      using store_step_idle [OF st] by blast
  qed
  show ?thesis using 1 2 3 4 5 by blast
qed

lemma second_run_idle:
  assumes "failed_tiles (new_events w (downloadZoomLevels e p zs ze M bounds c lang w)) = []"
  shows "\<forall>t\<in>set (run_tiles zs ze M bounds).
           existsSync (downloadZoomLevels e p zs ze M bounds c lang w) (tile_file p t)"
proof -
  let ?w' = "downloadZoomLevels e p zs ze M bounds c lang w"
  obtain es where es: "logged (failed_line p lang) w ?w' es"
    "\<forall>t\<in>set (run_tiles zs ze M bounds). existsSync ?w' (tile_file p t) \<or> t \<in> set (failed_tiles es)"
    using levels_run [of p lang w e zs ze M bounds c] by blast
  have "new_events w ?w' = es"
    using es(1) by (intro new_events_append) (simp add: logged_def)
  then show ?thesis using es(2) assms by simp
qed

lemma processFailedTiles_keeps:
  assumes "files w path = Some content"
  shows "files (processFailedTiles e p c w) path = Some content"
proof (cases "ledger w")
  case None
  then show ?thesis using assms by (simp add: processFailedTiles_def)
next
  case (Some body)
  let ?lines = "split_on (CHR 0x0A) (js_trim body)"
  let ?T = "map (retry_task p) ?lines"
  let ?s = "dispatch e (length ?lines) c [] ?T (0, w)"
  have "store_step (concat (batches c [] ?T)) w (snd ?s)"
    unfolding dispatch_batches using fold_batches_store [of "batches c [] ?T" "(0, w)"] by simp
  then have "files (snd ?s) path = Some content"
    using assms by (rule store_step_keeps)
  then show ?thesis
    using assms Some by (simp add: processFailedTiles_def unlinkSync_ledger_def Let_def)
qed

lemma main_world_keeps:
  assumes "files w path = Some content"
  shows "files (main_world r w) path = Some content"
proof -
  obtain e providerName zs ze M bounds lang c
    where r: "r = (e, providerName, zs, ze, M, bounds, lang, c)"
    by (cases r) auto
  show ?thesis
  proof (cases "TileProviderFactory_create providerName (Some lang)")
    case (Inl err)
    then show ?thesis using assms by (simp add: main_world_def r main_def)
  next
    case (Inr p)
    let ?w1 = "processFailedTiles e p c w"
    let ?w2 = "downloadZoomLevels e p zs ze M bounds c lang ?w1"
    have 1: "files ?w1 path = Some content"
      using assms by (rule processFailedTiles_keeps)
    have 2: "files ?w2 path = Some content"
      using run_store 1 by (rule store_step_keeps)
    have "files (processFailedTiles e p c ?w2) path = Some content"
      using 2 by (rule processFailedTiles_keeps)
    then show ?thesis using Inr by (simp add: main_world_def r main_def)
  qed
qed

lemma run_sequence_keeps:
  "files w path = Some content \<Longrightarrow> files (run_sequence rs w) path = Some content"
  unfolding run_sequence_def
  by (induction rs arbitrary: w) (simp_all add: main_world_keeps)

lemma online_run_0:
  "downloadZoomLevels online (GoogleTileProvider ''&hl=ru'') 0 0 M None 6 ''ru'' empty_world
     = snd (dispatch online 1 6 [] [tile_task (GoogleTileProvider ''&hl=ru'') 0 ''ru'' (0, 0)]
              (0, empty_world))"
  by (simp add: downloadZoomLevels_def downloadTilesForZoom_def zoom_state_0 del: dispatch.simps)

lemma online_zoom_0:
  "trace (snd (dispatch online 1 6 [] [tile_task (GoogleTileProvider ''&hl=ru'') 0 ''ru'' (0, 0)]
          (0, empty_world)))
     = [Started (Num 0, Num 0, Num 0), Settled (Num 0, Num 0, Num 0) True]"
  "files (snd (dispatch online 1 6 [] [tile_task (GoogleTileProvider ''&hl=ru'') 0 ''ru'' (0, 0)]
          (0, empty_world))) ''tiles/google/0/0/0.png'' = Some [1, 2, 3]"
  by code_simp+

text \<open>
  Claim C4: an acquisition run never removes or overwrites a file that exists when it
  starts and only adds directories; it sends requests only for tiles whose file does
  not exist and changes files only at the paths of such tiles; against a store that holds
  every tile of the run it sends no request and leaves files and directories as they
  are; so a second run with the same parameters after a first run without failures does
  nothing to the store, whatever the network does. Across any sequence of runs of
  \<^verbatim>\<open>main\<close>, with any parameters, a file that exists keeps its content.
\<close>

theorem acquisition_is_idempotent:
  "(\<forall>path content. files w path = Some content
      \<longrightarrow> files (downloadZoomLevels e p zs ze M bounds c lang w) path = Some content)
   \<and> dirs w \<subseteq> dirs (downloadZoomLevels e p zs ze M bounds c lang w)
   \<and> set (new_fetches w (downloadZoomLevels e p zs ze M bounds c lang w))
       \<subseteq> tile_url p ` {t \<in> set (run_tiles zs ze M bounds). \<not> existsSync w (tile_file p t)}
   \<and> (\<forall>path. files (downloadZoomLevels e p zs ze M bounds c lang w) path \<noteq> files w path
         \<longrightarrow> \<not> existsSync w path \<and> path \<in> tile_file p ` set (run_tiles zs ze M bounds))
   \<and> ((\<forall>t\<in>set (run_tiles zs ze M bounds). existsSync w (tile_file p t))
        \<longrightarrow> new_fetches w (downloadZoomLevels e p zs ze M bounds c lang w) = []
            \<and> files (downloadZoomLevels e p zs ze M bounds c lang w) = files w
            \<and> dirs (downloadZoomLevels e p zs ze M bounds c lang w) = dirs w)
   \<and> (failed_tiles (new_events w (downloadZoomLevels e p zs ze M bounds c lang w)) = []
        \<longrightarrow> new_fetches (downloadZoomLevels e p zs ze M bounds c lang w)
              (downloadZoomLevels e' p zs ze M bounds c lang
                 (downloadZoomLevels e p zs ze M bounds c lang w)) = []
            \<and> files (downloadZoomLevels e' p zs ze M bounds c lang
                 (downloadZoomLevels e p zs ze M bounds c lang w))
                = files (downloadZoomLevels e p zs ze M bounds c lang w)
            \<and> dirs (downloadZoomLevels e' p zs ze M bounds c lang
                 (downloadZoomLevels e p zs ze M bounds c lang w))
                = dirs (downloadZoomLevels e p zs ze M bounds c lang w))
   \<and> (\<forall>path content. files w path = Some content
        \<longrightarrow> files (run_sequence rs w) path = Some content)"
proof -
  let ?w1 = "downloadZoomLevels e p zs ze M bounds c lang w"
  note first = run_store_tiles [of w e p zs ze M bounds c lang]
  note second = run_store_tiles [of ?w1 e' p zs ze M bounds c lang]
  have 6: "failed_tiles (new_events w ?w1) = []
        \<longrightarrow> new_fetches ?w1 (downloadZoomLevels e' p zs ze M bounds c lang ?w1) = []
            \<and> files (downloadZoomLevels e' p zs ze M bounds c lang ?w1) = files ?w1
            \<and> dirs (downloadZoomLevels e' p zs ze M bounds c lang ?w1) = dirs ?w1"
    using second_run_idle [of w e p zs ze M bounds c lang] second by blast
  have 7: "\<forall>path content. files w path = Some content
        \<longrightarrow> files (run_sequence rs w) path = Some content"
    using run_sequence_keeps by blast
  show ?thesis using first 6 7 by blast
qed

theorem acquisition_is_idempotent_witness:
  "failed_tiles (new_events empty_world
      (downloadZoomLevels online (GoogleTileProvider ''&hl=ru'') 0 0 exact None 6 ''ru'' empty_world)) = []
   \<and> files (downloadZoomLevels online (GoogleTileProvider ''&hl=ru'') 0 0 exact None 6 ''ru'' empty_world)
        ''tiles/google/0/0/0.png'' = Some [1, 2, 3]
   \<and> new_fetches
        (downloadZoomLevels online (GoogleTileProvider ''&hl=ru'') 0 0 exact None 6 ''ru'' empty_world)
        (downloadZoomLevels offline (GoogleTileProvider ''&hl=ru'') 0 0 exact None 6 ''ru''
           (downloadZoomLevels online (GoogleTileProvider ''&hl=ru'') 0 0 exact None 6 ''ru'' empty_world))
       = []
   \<and> files (downloadZoomLevels offline (GoogleTileProvider ''&hl=ru'') 0 0 exact None 6 ''ru''
           (downloadZoomLevels online (GoogleTileProvider ''&hl=ru'') 0 0 exact None 6 ''ru'' empty_world))
        ''tiles/google/0/0/0.png'' = Some [1, 2, 3]"
proof -
  let ?w1 = "downloadZoomLevels online (GoogleTileProvider ''&hl=ru'') 0 0 exact None 6 ''ru'' empty_world"
  have nf: "failed_tiles (new_events empty_world ?w1) = []"
    unfolding new_events_def online_run_0 online_zoom_0 by (simp add: empty_world_def)
  have f1: "files ?w1 ''tiles/google/0/0/0.png'' = Some [1, 2, 3]"
    unfolding online_run_0 online_zoom_0 ..
  note run = acquisition_is_idempotent
    [of empty_world online "GoogleTileProvider ''&hl=ru''" 0 0 exact None 6 "''ru''" offline
     "[] :: (env \<times> string \<times> nat \<times> nat \<times> real number_ops \<times> real BoundingBox option
              \<times> string \<times> int) list"]
  show ?thesis using run nf f1 by simp
qed

subsection \<open>Ledger records\<close>

lemma split_on_none: "c \<notin> set a \<Longrightarrow> split_on c a = [a]"
  by (induction a) auto

lemma split_on_field: "c \<notin> set a \<Longrightarrow> split_on c (a @ c # rest) = a # split_on c rest"
  by (induction a) auto

lemma digits10_chars: "set (digits10 n) \<subseteq> set ''0123456789''"
proof (induction n rule: digits10.induct)
  case (1 n)
  have d: "digit_char k \<in> set ''0123456789''" if "k < 10" for k
    using that unfolding digit_char_def by (intro nth_mem) simp
  show ?case
  proof (cases "n < 10")
    case True
    then show ?thesis using d [of n] by (subst digits10.simps) simp
  next
    case False
    have "n mod 10 < 10" by simp
    then show ?thesis using False "1.IH" d [of "n mod 10"] by (subst digits10.simps) simp
  qed
qed

lemma js_show_nat_plain:
  "CHR '','' \<notin> set (js_show (Num (int n)))" "CHR 0x0A \<notin> set (js_show (Num (int n)))"
  using digits10_chars [of n] by (auto simp: js_show_def)

lemma name_plain: "CHR '','' \<notin> set (name p)" "CHR 0x0A \<notin> set (name p)"
  by (cases p; simp)+

lemma failed_record_fields:
  assumes "CHR '','' \<notin> set lang"
  shows "split_on CHR '','' (failed_record p (Num (int z)) (Num (int x)) (Num (int y)) lang)
           = [name p, js_show (Num (int z)), js_show (Num (int x)), js_show (Num (int y)), lang]"
proof -
  have "failed_record p (Num (int z)) (Num (int x)) (Num (int y)) lang
      = name p @ CHR '','' # (js_show (Num (int z)) @ CHR '','' # (js_show (Num (int x))
          @ CHR '','' # (js_show (Num (int y)) @ CHR '','' # lang)))"
    by (simp add: failed_record_def)
  then show ?thesis
    using assms by (simp add: split_on_field split_on_none name_plain js_show_nat_plain)
qed

lemma failed_record_parallel_fields:
  "split_on CHR '','' (failed_record_parallel p (Num (int z)) (Num (int x)) (Num (int y)))
           = [name p, js_show (Num (int z)), js_show (Num (int x)), js_show (Num (int y))]"
proof -
  have "failed_record_parallel p (Num (int z)) (Num (int x)) (Num (int y))
      = name p @ CHR '','' # (js_show (Num (int z)) @ CHR '','' # (js_show (Num (int x))
          @ CHR '','' # js_show (Num (int y))))"
    by (simp add: failed_record_parallel_def)
  then show ?thesis
    by (simp add: split_on_field split_on_none name_plain js_show_nat_plain)
qed

lemma failed_record_one_line:
  "CHR 0x0A \<notin> set lang
   \<Longrightarrow> CHR 0x0A \<notin> set (failed_record p (Num (int z)) (Num (int x)) (Num (int y)) lang)"
  by (simp add: failed_record_def name_plain js_show_nat_plain)

lemma digit_char_facts:
  "\<forall>k\<in>set [0..<10]. digit_value 10 (digit_char k) = Some k \<and> \<not> is_space (digit_char k)
      \<and> digit_char k \<noteq> CHR ''-'' \<and> digit_char k \<noteq> CHR ''+''"
  by code_simp

lemma digit_char_value: "k < 10 \<Longrightarrow> digit_value 10 (digit_char k) = Some k"
  using digit_char_facts by simp

lemma digits10_head: "\<exists>k cs. k < 10 \<and> digits10 n = digit_char k # cs"
proof (induction n rule: digits10.induct)
  case (1 n)
  show ?case
  proof (cases "n < 10")
    case True
    then show ?thesis by (subst digits10.simps) auto
  next
    case False
    then obtain k cs where "k < 10" "digits10 (n div 10) = digit_char k # cs"
      using "1.IH" by blast
    then show ?thesis using False by (subst digits10.simps) auto
  qed
qed

lemma parse_digits10:
  "parse_digits 10 (digits10 n @ rest) None = parse_digits 10 rest (Some n)"
proof (induction n arbitrary: rest rule: digits10.induct)
  case (1 n)
  show ?case
  proof (cases "n < 10")
    case True
    then show ?thesis by (subst digits10.simps) (simp add: digit_char_value)
  next
    case False
    have m: "n mod 10 < 10" by simp
    have "parse_digits 10 (digits10 n @ rest) None
        = parse_digits 10 (digits10 (n div 10) @ (digit_char (n mod 10) # rest)) None"
      using False by (subst digits10.simps) simp
    also have "\<dots> = parse_digits 10 (digit_char (n mod 10) # rest) (Some (n div 10))"
      using False by (rule "1.IH")
    also have "\<dots> = parse_digits 10 rest (Some n)"
      by (simp add: digit_char_value [OF m])
    finally show ?thesis .
  qed
qed

lemma parseInt_js_show: "parseInt (Some (js_show (Num (int n)))) = Num (int n)"
proof -
  obtain k cs where k: "k < 10" "digits10 n = digit_char k # cs"
    using digits10_head by blast
  have f: "\<not> is_space (digit_char k)" "digit_char k \<noteq> CHR ''-''" "digit_char k \<noteq> CHR ''+''"
    using digit_char_facts k(1) by simp_all
  have dw: "dropWhile is_space (digits10 n) = digits10 n"
    using k(2) f(1) by simp
  have t1: "take 1 (digits10 n) \<noteq> ''-''" "take 1 (digits10 n) \<noteq> ''+''"
    using k(2) f(2,3) by simp_all
  have nox: "CHR ''x'' \<notin> set (digits10 n)" "CHR ''X'' \<notin> set (digits10 n)"
    using digits10_chars [of n] by auto
  have t2: "take 2 (digits10 n) \<noteq> ''0x''" "take 2 (digits10 n) \<noteq> ''0X''"
  proof -
    have "set (take 2 (digits10 n)) \<subseteq> set (digits10 n)" by (rule set_take_subset)
    then show "take 2 (digits10 n) \<noteq> ''0x''" "take 2 (digits10 n) \<noteq> ''0X''"
      using nox by auto
  qed
  have p: "parse_digits 10 (digits10 n) None = Some n"
    using parse_digits10 [of n "[]"] by simp
  show ?thesis
    by (simp add: parseInt_def js_show_def dw t1 t2 p Let_def del: One_nat_def)
qed

lemma retry_task_reads_record:
  assumes "CHR '','' \<notin> set lang"
  shows "tile_of (retry_task q (failed_record p (Num (int z)) (Num (int x)) (Num (int y)) lang))
           = (Num (int x), Num (int y), Num (int z))"
    and "provider_of (retry_task q (failed_record p (Num (int z)) (Num (int x)) (Num (int y)) lang))
           = name p"
    and "nth_field (split_on CHR '','' (failed_record p (Num (int z)) (Num (int x)) (Num (int y)) lang)) 4
           = Some lang"
  by (simp_all add: retry_task_def failed_record_fields [OF assms] nth_field_def parseInt_js_show
      Let_def)

text \<open>
  Claim C9, as the code has it: in the current downloader (\<^verbatim>\<open>downloadTilesForZoom\<close>),
  what a failing tile appends to the ledger is the record \<open>provider,zoom,x,y,locale\<close>
  followed by one line break; when the locale holds no comma and no line break, the
  record is one line, splitting it on commas gives exactly these five fields, and
  \<^verbatim>\<open>processFailedTiles\<close> reads the provider, the coordinates and the locale back from
  it. The two older scripts (\<^verbatim>\<open>downloadTilesParallel\<close>, \<^verbatim>\<open>logFailedTile\<close>) append the
  four fields \<open>provider,zoom,x,y\<close>, without the locale.
\<close>

theorem ledger_record_fields:
  assumes "CHR '','' \<notin> set lang" and "CHR 0x0A \<notin> set lang"
  shows "on_fail (tile_task p z lang (x, y))
           = Some (failed_record p (Num (int z)) (Num (int x)) (Num (int y)) lang @ [CHR 0x0A])
       \<and> CHR 0x0A \<notin> set (failed_record p (Num (int z)) (Num (int x)) (Num (int y)) lang)
       \<and> split_on CHR '','' (failed_record p (Num (int z)) (Num (int x)) (Num (int y)) lang)
           = [name p, js_show (Num (int z)), js_show (Num (int x)), js_show (Num (int y)), lang]
       \<and> tile_of (retry_task q (failed_record p (Num (int z)) (Num (int x)) (Num (int y)) lang))
           = (Num (int x), Num (int y), Num (int z))
       \<and> provider_of (retry_task q (failed_record p (Num (int z)) (Num (int x)) (Num (int y)) lang))
           = name p
       \<and> nth_field
            (split_on CHR '','' (failed_record p (Num (int z)) (Num (int x)) (Num (int y)) lang)) 4
           = Some lang
       \<and> split_on CHR '','' (failed_record_parallel p (Num (int z)) (Num (int x)) (Num (int y)))
           = [name p, js_show (Num (int z)), js_show (Num (int x)), js_show (Num (int y))]
       \<and> logFailedTile_entry (name p) (Num (int z)) (Num (int x)) (Num (int y))
           = failed_record_parallel p (Num (int z)) (Num (int x)) (Num (int y)) @ [CHR 0x0A]"
proof -
  have 1: "on_fail (tile_task p z lang (x, y))
           = Some (failed_record p (Num (int z)) (Num (int x)) (Num (int y)) lang @ [CHR 0x0A])"
    by (simp add: failed_line_def)
  have 8: "logFailedTile_entry (name p) (Num (int z)) (Num (int x)) (Num (int y))
           = failed_record_parallel p (Num (int z)) (Num (int x)) (Num (int y)) @ [CHR 0x0A]"
    by (simp add: logFailedTile_entry_def failed_record_parallel_def)
  show ?thesis
    unfolding 1 8 failed_record_fields [OF assms(1)] retry_task_reads_record [OF assms(1)]
      failed_record_parallel_fields
    using failed_record_one_line [OF assms(2), of p z x y]
    by (simp add: nth_field_def)
qed

theorem ledger_record_fields_witness:
  "CHR '','' \<notin> set ''ru'' \<and> CHR 0x0A \<notin> set ''ru''
   \<and> failed_record (GoogleTileProvider ''&hl=ru'') (Num (int 1)) (Num (int 0)) (Num (int 0)) ''ru''
       = ''google,1,0,0,ru''
   \<and> split_on CHR '','' ''google,1,0,0,ru'' = [''google'', ''1'', ''0'', ''0'', ''ru'']
   \<and> split_on CHR '','' (failed_record (GoogleTileProvider ''&hl=ru'') (Num (int 1)) (Num (int 0))
         (Num (int 0)) ''ru'')
       = [name (GoogleTileProvider ''&hl=ru''), js_show (Num (int 1)), js_show (Num (int 0)),
          js_show (Num (int 0)), ''ru'']
   \<and> tile_of (retry_task BingTileProvider
         (failed_record (GoogleTileProvider ''&hl=ru'') (Num (int 1)) (Num (int 0)) (Num (int 0)) ''ru''))
       = (Num (int 0), Num (int 0), Num (int 1))"
proof -
  have a: "CHR '','' \<notin> set ''ru''" and b: "CHR 0x0A \<notin> set ''ru''" by simp_all
  have r: "failed_record (GoogleTileProvider ''&hl=ru'') (Num (int 1)) (Num (int 0)) (Num (int 0)) ''ru''
       = ''google,1,0,0,ru''"
    by code_simp
  have s: "split_on CHR '','' ''google,1,0,0,ru'' = [''google'', ''1'', ''0'', ''0'', ''ru'']"
    by code_simp
  note t = ledger_record_fields [OF a b, of "GoogleTileProvider ''&hl=ru''" 1 0 0 BingTileProvider]
  show ?thesis using a b r s t by blast
qed

theorem ledger_record_fields_counterexample:
  "split_on CHR '','' (failed_record_parallel (GoogleTileProvider ''&hl=ru'') (Num 1) (Num 0) (Num 0))
     = [''google'', ''1'', ''0'', ''0'']
   \<and> split_on CHR '','' (failed_record (GoogleTileProvider ''&hl=en,US'') (Num 1) (Num 0) (Num 0) ''en,US'')
     = [''google'', ''1'', ''0'', ''0'', ''en'', ''US'']"
  by code_simp

subsection \<open>Writing a tile file\<close>

lemma mkdirSync_idem: "mkdirSync dir (mkdirSync dir w) = mkdirSync dir w"
  by (simp add: mkdirSync_def)

lemma dir_chain_last: "dir \<in> set (dir_chain dir)"
proof -
  let ?segs = "split_on CHR ''/'' dir"
  have ne: "?segs \<noteq> []" by (cases dir) (auto split: list.splits)
  have j: "join_with ''/'' (split_on CHR ''/'' s) = s" for s
  proof (induction s)
    case Nil
    show ?case by simp
  next
    case (Cons c s)
    show ?case
    proof (cases "split_on CHR ''/'' s")
      case Nil
      then show ?thesis using Cons by (cases s) (auto split: list.splits if_splits)
    next
      case (Cons f fs)
      then show ?thesis using Cons.IH by (cases fs) auto
    qed
  qed
  have mem: "length ?segs \<in> set [1..<Suc (length ?segs)]" using ne by (cases ?segs) auto
  have "(\<lambda>k. join_with ''/'' (take k ?segs)) (length ?segs)
      \<in> (\<lambda>k. join_with ''/'' (take k ?segs)) ` set [1..<Suc (length ?segs)]"
    using mem by (rule imageI)
  then have "join_with ''/'' ?segs \<in> set (dir_chain dir)"
    unfolding dir_chain_def Let_def set_map by simp
  then show ?thesis by (simp add: j)
qed

text \<open>
  Claim C8, as the code has it: \<^verbatim>\<open>saveTile\<close> skips a tile whose file exists; otherwise,
  once the answer has arrived, it makes sure the directories exist (a recursive create
  that changes nothing when repeated) and then writes the bytes straight to the final
  path. When the write succeeds, the final path holds exactly the bytes fetched and no
  other file has changed. There is no temporary file and no rename: when the write
  fails after \<open>k\<close> bytes, those \<open>k\<close> bytes stay at the final path, the call fails, and
  the exists check reports the file.
\<close>

theorem saveTile_writes_final_path_directly:
  "(existsSync w (outputFile provider z x y)
      \<longrightarrow> saveTile_begin tileUrl x y z provider w = (Resolved, w))
   \<and> (\<not> existsSync w (outputFile provider z x y)
      \<longrightarrow> saveTile_begin tileUrl x y z provider w
            = (Awaiting (length (fetched w)), w\<lparr>fetched := fetched w @ [tileUrl]\<rparr>))
   \<and> mkdirSync (outputDir provider z x) (mkdirSync (outputDir provider z x) w)
        = mkdirSync (outputDir provider z x) w
   \<and> (net e n tileUrl = Some content \<and> disk e n (outputFile provider z x y) content = Written
      \<longrightarrow> fst (saveTile_resume e n tileUrl x y z provider w)
          \<and> outputDir provider z x \<in> dirs (snd (saveTile_resume e n tileUrl x y z provider w))
          \<and> files (snd (saveTile_resume e n tileUrl x y z provider w))
               = (files w)(outputFile provider z x y \<mapsto> content))
   \<and> (net e n tileUrl = Some content
        \<and> disk e n (outputFile provider z x y) content = WriteError (Some k)
      \<longrightarrow> \<not> fst (saveTile_resume e n tileUrl x y z provider w)
          \<and> files (snd (saveTile_resume e n tileUrl x y z provider w))
               = (files w)(outputFile provider z x y \<mapsto> take k content)
          \<and> existsSync (snd (saveTile_resume e n tileUrl x y z provider w))
               (outputFile provider z x y))"
  using dir_chain_last [of "outputDir provider z x"]
  by (simp add: saveTile_begin_def saveTile_resume_def mkdirSync_idem mkdirSync_def
      writeFileSync_def existsSync_def)

theorem saveTile_writes_final_path_directly_witness:
  "net online 0 ''u'' = Some [1, 2, 3]
   \<and> disk online 0 (outputFile ''google'' (Num 0) (Num 0) (Num 0)) [1, 2, 3] = Written
   \<and> outputFile ''google'' (Num 0) (Num 0) (Num 0) = ''tiles/google/0/0/0.png''
   \<and> files (snd (saveTile_resume online 0 ''u'' (Num 0) (Num 0) (Num 0) ''google'' empty_world))
        ''tiles/google/0/0/0.png'' = Some [1, 2, 3]
   \<and> net torn 0 ''u'' = Some [1, 2, 3]
   \<and> disk torn 0 (outputFile ''google'' (Num 0) (Num 0) (Num 0)) [1, 2, 3] = WriteError (Some 1)
   \<and> files (snd (saveTile_resume torn 0 ''u'' (Num 0) (Num 0) (Num 0) ''google'' empty_world))
        ''tiles/google/0/0/0.png'' = Some [1]"
proof -
  have f: "outputFile ''google'' (Num 0) (Num 0) (Num 0) = ''tiles/google/0/0/0.png''"
    by code_simp
  have n: "net online 0 ''u'' = Some [1, 2, 3]"
    "disk online 0 (outputFile ''google'' (Num 0) (Num 0) (Num 0)) [1, 2, 3] = Written"
    by (simp_all add: online_def)
  have t: "net torn 0 ''u'' = Some [1, 2, 3]"
    "disk torn 0 (outputFile ''google'' (Num 0) (Num 0) (Num 0)) [1, 2, 3] = WriteError (Some 1)"
    by (simp_all add: torn_def)
  note ok = saveTile_writes_final_path_directly
    [of empty_world "''google''" "Num 0" "Num 0" "Num 0" "''u''" online 0 "[1, 2, 3]" 1]
  note bad = saveTile_writes_final_path_directly
    [of empty_world "''google''" "Num 0" "Num 0" "Num 0" "''u''" torn 0 "[1, 2, 3]" 1]
  have 1: "files (snd (saveTile_resume online 0 ''u'' (Num 0) (Num 0) (Num 0) ''google'' empty_world))
        ''tiles/google/0/0/0.png'' = Some [1, 2, 3]"
    using ok n by (simp add: f)
  have 2: "files (snd (saveTile_resume torn 0 ''u'' (Num 0) (Num 0) (Num 0) ''google'' empty_world))
        ''tiles/google/0/0/0.png'' = Some [1]"
    using bad t by (simp add: f)
  show ?thesis using f n t 1 2 by blast
qed

theorem partial_tile_is_taken_for_cached_counterexample:
  "net torn 0 ''u'' = Some [1, 2, 3]
   \<and> \<not> existsSync empty_world (outputFile ''google'' (Num 0) (Num 0) (Num 0))
   \<and> \<not> fst (saveTile_resume torn 0 ''u'' (Num 0) (Num 0) (Num 0) ''google'' empty_world)
   \<and> files (snd (saveTile_resume torn 0 ''u'' (Num 0) (Num 0) (Num 0) ''google'' empty_world))
        (outputFile ''google'' (Num 0) (Num 0) (Num 0)) = Some [1]
   \<and> existsSync (snd (saveTile_resume torn 0 ''u'' (Num 0) (Num 0) (Num 0) ''google'' empty_world))
        (outputFile ''google'' (Num 0) (Num 0) (Num 0))
   \<and> fst (saveTile_begin ''u'' (Num 0) (Num 0) (Num 0) ''google''
        (snd (saveTile_resume torn 0 ''u'' (Num 0) (Num 0) (Num 0) ''google'' empty_world)))
       = Resolved"
  by code_simp

subsection \<open>The retry pass\<close>











subsection \<open>Attempts\<close>


lemma requests_append [simp]: "requests (tps @ tps') = requests tps @ requests tps'"
  by (induction tps rule: requests.induct) auto










subsection \<open>Runs in which every write succeeds\<close>

lemma the_world_on_world [simp]: "the_world (on_world f st) = f (the_world st)"
  by (simp add: on_world_def)

lemma logToFile_world [simp]: "the_world (snd (logToFile i st)) = the_world st"
  by (simp add: logToFile_def)










lemma first_error_None [simp]: "first_error None r = r"
  by (simp add: first_error_def)

lemma settle_all_io_Nil [simp]: "settle_all_io e i tot [] r = r"
  by (simp add: settle_all_io.simps)









subsection \<open>Failures during a run\<close>


lemma flaky_zoom_1:
  "ledger (snd (dispatch flaky 4 3 []
              (map (tile_task (GoogleTileProvider ''&hl=ru'') 1 ''ru'') [(0, 0), (0, 1), (1, 0), (1, 1)])
              (0, empty_world)))
     = Some (''google,1,0,0,ru'' @ [CHR 0x0A])"
  by code_simp








section \<open>Claims about quad keys\<close>

text \<open>
  Claim C6, as the code has it: for every zoom \<open>z\<close> up to 32 and all \<open>x, y < 2 ^ z\<close>,
  \<open>quadKey\<close> is the string of \<open>z\<close> base-4 digits whose digit for bit position \<open>i\<close>, taken
  from \<open>z - 1\<close> down to 0, is \<open>bit i x + 2 * bit i y\<close>; and the three examples of the
  specification hold. (Above zoom 32 the shift count of \<^verbatim>\<open>1 << (i - 1)\<close> wraps.)
\<close>

theorem quadKey_interleaves_bits:
  assumes "z \<le> 32" and "x < 2 ^ z" and "y < 2 ^ z"
  shows "quadKey (Num (int x)) (Num (int y)) (Num (int z)) = quadKey_spec x y z
       \<and> quadKey (Num 0) (Num 0) (Num 1) = ''0''
       \<and> quadKey (Num 1) (Num 1) (Num 1) = ''3''
       \<and> quadKey (Num 1) (Num 0) (Num 2) = ''01''"
proof -
  have g: "quadKey (Num (int x)) (Num (int y)) (Num (int z)) = quadKey_spec x y z"
    using assms(1) by (simp add: quadKey_def quadKey_spec_def quadKey_loop_spec)
  have e1: "quadKey (Num 0) (Num 0) (Num 1) = ''0''"
    by (simp add: quadKey_def quadKey_digit_def ToInt32_def js_show_def digits10.simps
        digit_char_def)
  have e2: "quadKey (Num 1) (Num 1) (Num 1) = ''3''"
    by (simp add: quadKey_def quadKey_digit_def ToInt32_def js_show_def digits10.simps
        digit_char_def)
  have e3: "quadKey (Num 1) (Num 0) (Num 2) = ''01''"
    by (simp add: quadKey_def quadKey_digit_def ToInt32_def js_show_def digits10.simps
        digit_char_def numeral_2_eq_2)
  show ?thesis using g e1 e2 e3 by simp
qed

theorem quadKey_interleaves_bits_witness:
  "(5::nat) \<le> 32 \<and> (19::nat) < 2 ^ 5 \<and> (6::nat) < 2 ^ 5
   \<and> quadKey (Num (int 19)) (Num (int 6)) (Num (int 5)) = quadKey_spec 19 6 5
   \<and> quadKey_spec 19 6 5 = ''10231''"
proof -
  have s: "quadKey_spec 19 6 5 = ''10231''"
    by (simp add: quadKey_spec_def bit_at_def digit_char_def upt_rec [of _ "numeral _"]
        upt_rec [of 0 "Suc _"])
  show ?thesis
    using quadKey_interleaves_bits [of 5 19 6] s by simp
qed

theorem quadKey_zoom_33_counterexample:
  "(1::nat) < 2 ^ 33 \<and> (0::nat) < 2 ^ 33
   \<and> quadKey (Num (int 1)) (Num (int 0)) (Num (int 33)) \<noteq> quadKey_spec 1 0 33
   \<and> hd (quadKey (Num (int 1)) (Num (int 0)) (Num (int 33))) = CHR ''1''
   \<and> hd (quadKey_spec 1 0 33) = CHR ''0''"
proof -
  have split: "(33::nat) = Suc 32" by simp
  have d: "js_show (Num (quadKey_digit (Num 1) (Num 0) 32)) = ''1''"
    by (simp add: quadKey_digit_def ToInt32_def js_show_def digits10.simps digit_char_def)
  have k0: "quadKey (Num (int 1)) (Num (int 0)) (Num (int 33))
          = quadKey_loop (Num 1) (Num 0) (Suc 32) []"
    by (simp add: quadKey_def)
  have k: "quadKey (Num (int 1)) (Num (int 0)) (Num (int 33))
         = quadKey_loop (Num 1) (Num 0) 32 ''1''"
    unfolding k0 quadKey_loop.simps d by simp
  have l: "quadKey_loop (Num 1) (Num 0) 32 ''1''
         = ''1'' @ map (\<lambda>i. digit_char (bit_at i 1 + 2 * bit_at i 0)) (rev [0..<32])"
    using quadKey_loop_spec [of 32 1 0 "''1''"] by simp
  have h1: "hd (quadKey (Num (int 1)) (Num (int 0)) (Num (int 33))) = CHR ''1''"
    unfolding k l by simp
  have "[0..<(33::nat)] = [0..<32] @ [32]"
    using upt_Suc_append [of 0 32] by simp
  then have r: "rev [0..<(33::nat)] = 32 # rev [0..<32]"
    by simp
  have h0: "hd (quadKey_spec 1 0 33) = CHR ''0''"
    unfolding quadKey_spec_def r by (simp add: bit_at_def digit_char_def)
  have ne: "quadKey (Num (int 1)) (Num (int 0)) (Num (int 33)) \<noteq> quadKey_spec 1 0 33"
    using h1 h0 by auto
  show ?thesis using h1 h0 ne by simp
qed

text \<open>
  Claim C10: for all non-negative integers \<open>x\<close>, \<open>y\<close> and every zoom \<open>z \<ge> 0\<close>, \<open>quadKey\<close>
  returns exactly \<open>z\<close> characters, each one of the digits 0, 1, 2, 3, and the empty string
  at zoom 0.
\<close>

theorem quadKey_length_and_alphabet:
  "length (quadKey (Num (int x)) (Num (int y)) (Num (int z))) = z
   \<and> set (quadKey (Num (int x)) (Num (int y)) (Num (int z)))
       \<subseteq> {CHR ''0'', CHR ''1'', CHR ''2'', CHR ''3''}
   \<and> quadKey (Num (int x)) (Num (int y)) (Num 0) = []"
  using quadKey_loop_chars [of "Num (int x)" "Num (int y)" z "[]"]
  by (simp add: quadKey_def quadKey_loop_length)

text \<open>
  Claim C7: \<open>isTileInBounds\<close> is true exactly when the tile's computed latitude lies in
  \<open>[south, north]\<close> and its computed longitude in \<open>[west, east]\<close>, the latitude and the
  longitude being those of the specification's \<open>tileToGeo\<close>, computed with the same
  operations in the same order; with no box every tile is in bounds. This holds for every
  arithmetic of the numbers, so for the doubles of the engine.
\<close>

theorem isTileInBounds_iff_geo_in_box:
  "isTileInBounds M x y z (Some box)
     = (inside M (south box) (north box) (fst (tileToGeo M x y z))
        \<and> inside M (west box) (east box) (snd (tileToGeo M x y z)))
   \<and> isTileInBounds M x y z None"
  by (auto simp: isTileInBounds_def tileToGeo_def inside_def ge_def le_def Let_def)

end
